theory Spec2Isabelle
  imports Main "HOL-Library.Word"
begin

section \<open>C strings and allocation\<close>

text \<open>
  A C string is modelled by the list of its characters before the terminating NUL, and a
  \<^verbatim>\<open>const char *\<close> by a \<open>string option\<close>, where \<open>None\<close> is the NULL pointer.
  Every allocation of the source (\<^verbatim>\<open>malloc\<close>, \<^verbatim>\<open>strdup\<close>) can fail; the transforms
  take a flag \<open>mem\<close> that says whether their allocation succeeds, so that the
  \<^verbatim>\<open>return NULL\<close> branches of the source are branches of the model.
\<close>

definition newline :: char where
  "newline = CHR 0x0A"

definition strdup :: "bool \<Rightarrow> string \<Rightarrow> string option" where
  "strdup mem s = (if mem then Some s else None)"

text \<open>\<^verbatim>\<open>is_end_line\<close>: \<^verbatim>\<open>s && strcmp(s, "<END>") == 0\<close>.\<close>

definition is_end_line :: "string option \<Rightarrow> bool" where
  "is_end_line s = (case s of None \<Rightarrow> False | Some t \<Rightarrow> t = ''<END>'')"

section \<open>The six transforms\<close>

text \<open>
  \<^verbatim>\<open>toupper\<close> in the C locale, applied to an \<^verbatim>\<open>unsigned char\<close>: the letters
  \<open>a\<close>..\<open>z\<close> (97..122) move down by 32, every other byte is unchanged.
\<close>

definition toupper :: "char \<Rightarrow> char" where
  "toupper c = (let n = (of_char c :: nat) in
                if 97 \<le> n \<and> n \<le> 122 then char_of (n - 32) else c)"

text \<open>logger: the pair is (text written to stdout, returned pointer).\<close>

definition logger_plugin_transform :: "bool \<Rightarrow> string option \<Rightarrow> string \<times> string option" where
  "logger_plugin_transform mem input_str =
     (case input_str of
        None \<Rightarrow> ('''', strdup mem '''')
      | Some s \<Rightarrow>
          if is_end_line (Some s) then ('''', strdup mem s)
          else (''[logger] '' @ s @ [newline], strdup mem s))"

definition uppercaser_plugin_transform :: "bool \<Rightarrow> string option \<Rightarrow> string option" where
  "uppercaser_plugin_transform mem input_str =
     (case input_str of
        None \<Rightarrow> strdup mem ''''
      | Some s \<Rightarrow>
          if is_end_line (Some s) then strdup mem s
          else if \<not> mem then None
          else Some (map (\<lambda>read_index. toupper (s ! read_index)) [0..<length s]))"

definition rotator_plugin_transform :: "bool \<Rightarrow> string option \<Rightarrow> string option" where
  "rotator_plugin_transform mem input_str =
     (case input_str of
        None \<Rightarrow> strdup mem ''''
      | Some s \<Rightarrow>
          if is_end_line (Some s) then strdup mem s
          else if length s \<le> 1 then strdup mem s
          else if \<not> mem then None
          else Some (s ! (length s - 1) # take (length s - 1) s))"

definition flipper_plugin_transform :: "bool \<Rightarrow> string option \<Rightarrow> string option" where
  "flipper_plugin_transform mem input_str =
     (case input_str of
        None \<Rightarrow> strdup mem ''''
      | Some s \<Rightarrow>
          if is_end_line (Some s) then strdup mem s
          else if \<not> mem then None
          else Some (map (\<lambda>read_index. s ! (length s - 1 - read_index)) [0..<length s]))"

text \<open>
  The copy loop of expander: each character, followed by a space unless it is the last.
\<close>

fun expander_loop :: "string \<Rightarrow> string" where
  "expander_loop [] = []"
| "expander_loop [c] = [c]"
| "expander_loop (c # d # cs) = c # CHR '' '' # expander_loop (d # cs)"

definition expander_plugin_transform :: "bool \<Rightarrow> string option \<Rightarrow> string option" where
  "expander_plugin_transform mem input_str =
     (case input_str of
        None \<Rightarrow> strdup mem ''''
      | Some s \<Rightarrow>
          if is_end_line (Some s) then strdup mem s
          else if length s = 0 then strdup mem ''''
          else if \<not> mem then None
          else Some (expander_loop s))"

text \<open>typewriter: the pair is (text written to stdout, returned pointer); the pauses
  between the characters are not modelled.\<close>

definition typewriter_plugin_transform :: "bool \<Rightarrow> string option \<Rightarrow> string \<times> string option" where
  "typewriter_plugin_transform mem input_str =
     (case input_str of
        None \<Rightarrow> ('''', strdup mem '''')
      | Some s \<Rightarrow>
          if is_end_line (Some s) then ('''', strdup mem s)
          else if s \<noteq> [] then (''[typewriter] '' @ s @ [newline], strdup mem s)
          else ('''', strdup mem s))"

text \<open>Applying the rotator \<open>k\<close> times, each result fed to the next application.\<close>

fun rotator_times :: "bool \<Rightarrow> nat \<Rightarrow> string \<Rightarrow> string option" where
  "rotator_times mem 0 s = Some s"
| "rotator_times mem (Suc k) s =
     (case rotator_plugin_transform mem (Some s) of
        None \<Rightarrow> None
      | Some t \<Rightarrow> rotator_times mem k t)"

text \<open>The pure right rotation by one, used to describe the iterates.\<close>

definition rrot :: "string \<Rightarrow> string" where
  "rrot s = (if s = [] then [] else last s # butlast s)"

section \<open>The manual-reset monitor\<close>

text \<open>
  \<^verbatim>\<open>monitor_t\<close>: only the flag is modelled; its mutex and condition variable serve the
  atomicity of the operations below. \<^verbatim>\<open>monitor_wait\<close> returns 0 once the flag is set; in
  a sequential reading a wait on a cleared flag does not return, which is \<open>None\<close>.
\<close>

record monitor_t =
  signaled :: bool

definition monitor_init :: monitor_t where
  "monitor_init = \<lparr>signaled = False\<rparr>"

definition monitor_signal :: "monitor_t \<Rightarrow> monitor_t" where
  "monitor_signal m = m\<lparr>signaled := True\<rparr>"

definition monitor_reset :: "monitor_t \<Rightarrow> monitor_t" where
  "monitor_reset m = m\<lparr>signaled := False\<rparr>"

definition monitor_wait :: "monitor_t \<Rightarrow> int option" where
  "monitor_wait m = (if signaled m then Some 0 else None)"

section \<open>The bounded queue (consumer_producer)\<close>

text \<open>
  \<^verbatim>\<open>consumer_producer_t\<close>. A slot of the ring holds a pointer to an owned string or NULL
  (\<open>None\<close>). The \<^verbatim>\<open>int\<close> fields are natural numbers here: the code never makes them
  negative, and they never exceed the capacity, which is a positive \<^verbatim>\<open>int\<close>.
\<close>

record consumer_producer_t =
  items :: "string option list"
  capacity :: nat
  count :: nat
  head :: nat
  tail :: nat
  not_full_monitor :: monitor_t
  not_empty_monitor :: monitor_t
  finished_monitor :: monitor_t

text \<open>What the environment decides during \<^verbatim>\<open>consumer_producer_init\<close>: whether
  \<^verbatim>\<open>calloc\<close>, the three \<^verbatim>\<open>monitor_init\<close> calls and \<^verbatim>\<open>cp_register_lock\<close> succeed.\<close>

record init_env =
  calloc_ok :: bool
  not_full_ok :: bool
  not_empty_ok :: bool
  finished_ok :: bool
  lock_ok :: bool

definition consumer_producer_init :: "init_env \<Rightarrow> int \<Rightarrow> string + consumer_producer_t" where
  "consumer_producer_init env cap =
     (if cap < 1 then Inl ''invalid args''
      else if \<not> calloc_ok env then Inl ''calloc failed''
      else if \<not> not_full_ok env then Inl ''monitor_init(not_full) failed''
      else if \<not> not_empty_ok env then Inl ''monitor_init(not_empty) failed''
      else if \<not> finished_ok env then Inl ''monitor_init(finished) failed''
      else if \<not> lock_ok env then Inl ''lock allocation failed''
      else Inr \<lparr>items = replicate (nat cap) None, capacity = nat cap, count = 0,
                head = 0, tail = 0, not_full_monitor = monitor_init,
                not_empty_monitor = monitor_init, finished_monitor = monitor_init\<rparr>)"

text \<open>
  What the environment decides during one \<^verbatim>\<open>put\<close> or \<^verbatim>\<open>get\<close>: whether the queue's mutex
  is found in the registry, whether \<^verbatim>\<open>malloc\<close> succeeds, whether \<^verbatim>\<open>monitor_wait\<close>
  succeeds.
\<close>

record cp_env =
  lock_found :: bool
  malloc_ok :: bool
  wait_ok :: bool

text \<open>
  A blocking call either returns a value or is left waiting on a monitor. One call of
  \<open>consumer_producer_put\<close> or \<open>consumer_producer_get\<close> below is one pass through the
  critical section; a caller left \<open>Blocked\<close> passes through it again when it is woken.
\<close>

datatype 'a blocking = Returned 'a | Blocked

definition consumer_producer_put ::
  "cp_env \<Rightarrow> consumer_producer_t \<Rightarrow> string option
     \<Rightarrow> string option blocking \<times> consumer_producer_t" where
  "consumer_producer_put env q item =
     (case item of
        None \<Rightarrow> (Returned (Some ''invalid args''), q)
      | Some s \<Rightarrow>
          if \<not> lock_found env then (Returned (Some ''queue lock missing''), q)
          else if count q = capacity q then
            (let q' = q\<lparr>not_full_monitor := monitor_reset (not_full_monitor q)\<rparr> in
             if \<not> wait_ok env then (Returned (Some ''wait(not_full) failed''), q')
             else (Blocked, q'))
          else if \<not> malloc_ok env then
            (Returned (Some ''out of memory''), q\<lparr>items := (items q)[tail q := None]\<rparr>)
          else
            (Returned None,
             q\<lparr>items := (items q)[tail q := Some s],
               tail := (tail q + 1) mod capacity q,
               count := count q + 1,
               not_empty_monitor := monitor_signal (not_empty_monitor q)\<rparr>))"

definition consumer_producer_get ::
  "cp_env \<Rightarrow> consumer_producer_t \<Rightarrow> string option blocking \<times> consumer_producer_t" where
  "consumer_producer_get env q =
     (if \<not> lock_found env then (Returned None, q)
      else if count q > 0 then
        (Returned (items q ! head q),
         q\<lparr>head := (head q + 1) mod capacity q,
           count := count q - 1,
           not_full_monitor := monitor_signal (not_full_monitor q)\<rparr>)
      else
        (let q' = q\<lparr>not_empty_monitor := monitor_reset (not_empty_monitor q)\<rparr> in
         if \<not> wait_ok env then (Returned None, q') else (Blocked, q')))"

definition consumer_producer_signal_finished :: "consumer_producer_t \<Rightarrow> consumer_producer_t" where
  "consumer_producer_signal_finished q =
     q\<lparr>finished_monitor := monitor_signal (finished_monitor q)\<rparr>"

definition consumer_producer_wait_finished :: "consumer_producer_t option \<Rightarrow> int option" where
  "consumer_producer_wait_finished q =
     (case q of
        None \<Rightarrow> Some (- 1)
      | Some q' \<Rightarrow>
          (case monitor_wait (finished_monitor q') of
             None \<Rightarrow> None
           | Some w \<Rightarrow> Some (if w = 0 then 0 else - 1)))"

subsection \<open>Sequences of queue operations\<close>

datatype cp_op = Put cp_env "string option" | Get cp_env

text \<open>
  A run of queue operations from a state: the strings of the puts that returned NULL
  (success), the strings returned by the gets that returned a string, and the final state.
\<close>

record cp_run =
  put_log :: "string list"
  get_log :: "string list"
  cp_state :: consumer_producer_t

fun cp_step :: "cp_run \<Rightarrow> cp_op \<Rightarrow> cp_run" where
  "cp_step r (Put env item) =
     (case consumer_producer_put env (cp_state r) item of
        (Returned None, q') \<Rightarrow>
          r\<lparr>put_log := put_log r @ (case item of None \<Rightarrow> [] | Some s \<Rightarrow> [s]),
            cp_state := q'\<rparr>
      | (_, q') \<Rightarrow> r\<lparr>cp_state := q'\<rparr>)"
| "cp_step r (Get env) =
     (case consumer_producer_get env (cp_state r) of
        (Returned (Some s), q') \<Rightarrow> r\<lparr>get_log := get_log r @ [s], cp_state := q'\<rparr>
      | (_, q') \<Rightarrow> r\<lparr>cp_state := q'\<rparr>)"

definition cp_run_ops :: "consumer_producer_t \<Rightarrow> cp_op list \<Rightarrow> cp_run" where
  "cp_run_ops q ops = foldl cp_step \<lparr>put_log = [], get_log = [], cp_state = q\<rparr> ops"

text \<open>The positions \<open>[head, head+count) mod capacity\<close>, the strings stored there in
  order, and the positions whose slot is not NULL.\<close>

definition cp_window :: "consumer_producer_t \<Rightarrow> nat list" where
  "cp_window q = map (\<lambda>i. (head q + i) mod capacity q) [0..<count q]"

definition cp_contents :: "consumer_producer_t \<Rightarrow> string option list" where
  "cp_contents q = map (\<lambda>p. items q ! p) (cp_window q)"

definition cp_nonempty_slots :: "consumer_producer_t \<Rightarrow> nat list" where
  "cp_nonempty_slots q = filter (\<lambda>p. items q ! p \<noteq> None) [0..<capacity q]"

definition cp_inv :: "consumer_producer_t \<Rightarrow> bool" where
  "cp_inv q \<longleftrightarrow>
     length (items q) = capacity q \<and> 1 \<le> capacity q \<and> count q \<le> capacity q
     \<and> head q < capacity q \<and> tail q < capacity q
     \<and> tail q = (head q + count q) mod capacity q
     \<and> set (cp_window q) \<subseteq> set (cp_nonempty_slots q)"

text \<open>The run invariant behind the FIFO property: the strings put so far are the strings
  got so far followed by the strings still in the window, in order.\<close>

definition cp_fifo_inv :: "cp_run \<Rightarrow> bool" where
  "cp_fifo_inv r \<longleftrightarrow> cp_inv (cp_state r)
     \<and> map Some (put_log r) = map Some (get_log r) @ cp_contents (cp_state r)"

subsection \<open>Concrete inputs\<close>

definition ok_init_env :: init_env where
  "ok_init_env = \<lparr>calloc_ok = True, not_full_ok = True, not_empty_ok = True,
                   finished_ok = True, lock_ok = True\<rparr>"

definition ok_cp_env :: cp_env where
  "ok_cp_env = \<lparr>lock_found = True, malloc_ok = True, wait_ok = True\<rparr>"

definition empty_queue :: "nat \<Rightarrow> consumer_producer_t" where
  "empty_queue c = \<lparr>items = replicate c None, capacity = c, count = 0,
                     head = 0, tail = 0, not_full_monitor = monitor_init,
                     not_empty_monitor = monitor_init, finished_monitor = monitor_init\<rparr>"

definition fifo_ops :: "cp_op list" where
  "fifo_ops = [Put ok_cp_env (Some ''a''), Put ok_cp_env (Some ''b''), Get ok_cp_env,
               Put ok_cp_env (Some ''c''), Get ok_cp_env, Get ok_cp_env]"

section \<open>The stage: context, initialisation and worker\<close>

text \<open>
  \<^verbatim>\<open>plugin_context_t\<close>, the one static context of a stage module. Function pointers are
  optional functions (\<open>None\<close> is NULL); \<^verbatim>\<open>consumer_thread\<close> is the thread id, 0 when
  there is none.
\<close>

record plugin_context_t =
  name :: "string option"
  queue :: "consumer_producer_t option"
  consumer_thread :: nat
  next_place_work :: "(string option \<Rightarrow> string option) option"
  process_function :: "(string option \<Rightarrow> string option) option"
  initialized :: bool
  finished :: bool

text \<open>What the environment decides during \<^verbatim>\<open>common_plugin_init\<close>: whether the queue
  object can be allocated, how the queue's own initialisation goes, the return code of
  \<^verbatim>\<open>pthread_create\<close> and the id of the thread it creates.\<close>

record plugin_env =
  queue_malloc_ok :: bool
  queue_init_env :: init_env
  pthread_create_rc :: int
  created_thread :: nat

definition common_plugin_init ::
  "plugin_env \<Rightarrow> plugin_context_t \<Rightarrow> (string option \<Rightarrow> string option) option
     \<Rightarrow> string option \<Rightarrow> int \<Rightarrow> string option \<times> plugin_context_t" where
  "common_plugin_init env ctx process_fn nm qsize =
     (if initialized ctx then (Some ''plugin already initialized'', ctx)
      else case process_fn of
        None \<Rightarrow> (Some ''process_function is NULL'', ctx)
      | Some f \<Rightarrow>
          if qsize < 1 then (Some ''queue_size must be > 0'', ctx)
          else if \<not> queue_malloc_ok env then
            (Some ''failed to allocate queue'', ctx\<lparr>queue := None\<rparr>)
          else
            (case consumer_producer_init (queue_init_env env) qsize of
               Inl queue_init_error \<Rightarrow> (Some queue_init_error, ctx\<lparr>queue := None\<rparr>)
             | Inr q \<Rightarrow>
                 (let ctx1 = ctx\<lparr>queue := Some q,
                                 name := Some (case nm of None \<Rightarrow> ''plugin'' | Some n \<Rightarrow> n),
                                 process_function := Some f,
                                 next_place_work := None,
                                 finished := False\<rparr>
                  in if pthread_create_rc env \<noteq> 0 then
                       (Some ''failed to create consumer thread'',
                        ctx1\<lparr>queue := None, process_function := None\<rparr>)
                     else
                       (None, ctx1\<lparr>consumer_thread := created_thread env,
                                   initialized := True\<rparr>))))"

text \<open>
  The worker. What it does to the outside is a list of events: a call of the next stage's
  \<^verbatim>\<open>place_work\<close>, a call of \<^verbatim>\<open>log_error\<close>, the call of
  \<^verbatim>\<open>consumer_producer_signal_finished\<close> on its queue.
\<close>

datatype worker_event = Forward string | LogError string | SignalFinished

definition forward_events ::
  "(string option \<Rightarrow> string option) option \<Rightarrow> string \<Rightarrow> worker_event list" where
  "forward_events nxt s =
     (case nxt of
        None \<Rightarrow> []
      | Some place \<Rightarrow>
          (case place (Some s) of
             None \<Rightarrow> [Forward s]
           | Some err \<Rightarrow> [Forward s, LogError err]))"

definition forward_end_if_attached :: "plugin_context_t \<Rightarrow> worker_event list" where
  "forward_end_if_attached plugin_ctx = forward_events (next_place_work plugin_ctx) ''<END>''"

text \<open>
  The loop of \<^verbatim>\<open>plugin_consumer_thread\<close>. The worker shares its queue with the producers,
  so the loop is run on the results of its successive \<^verbatim>\<open>consumer_producer_get\<close> calls:
  \<open>Some s\<close> for a string, \<open>None\<close> for NULL. When that list ends the worker is left waiting
  in \<^verbatim>\<open>get\<close>. The result says whether the loop was left (\<open>True\<close>) or the worker is
  still waiting (\<open>False\<close>).
\<close>

fun consumer_loop ::
  "plugin_context_t \<Rightarrow> (string option \<Rightarrow> string option) \<Rightarrow> string option list
     \<Rightarrow> worker_event list \<times> bool" where
  "consumer_loop plugin_ctx f [] = ([], False)"
| "consumer_loop plugin_ctx f (None # gets) = ([LogError ''get() failed''], True)"
| "consumer_loop plugin_ctx f (Some inp # gets) =
     (if inp = ''<END>'' then (forward_end_if_attached plugin_ctx, True)
      else
        (case f (Some inp) of
           None \<Rightarrow>
             (let r = consumer_loop plugin_ctx f gets
              in (LogError ''process_function returned NULL'' # fst r, snd r))
         | Some out \<Rightarrow>
             (let r = consumer_loop plugin_ctx f gets
              in (forward_events (next_place_work plugin_ctx) out @ fst r, snd r))))"

text \<open>
  \<^verbatim>\<open>plugin_consumer_thread\<close>: the events, and the context when the thread returns
  (\<open>Blocked\<close> when it never does).
\<close>

definition plugin_consumer_thread ::
  "plugin_context_t \<Rightarrow> string option list
     \<Rightarrow> worker_event list \<times> plugin_context_t blocking" where
  "plugin_consumer_thread plugin_ctx gets =
     (case queue plugin_ctx of
        None \<Rightarrow> ([], Returned (plugin_ctx\<lparr>finished := True\<rparr>))
      | Some q \<Rightarrow>
          (case process_function plugin_ctx of
             None \<Rightarrow> ([], Returned (plugin_ctx\<lparr>finished := True\<rparr>))
           | Some f \<Rightarrow>
               (let r = consumer_loop plugin_ctx f gets
                in if snd r then
                     (fst r @ [SignalFinished],
                      Returned (plugin_ctx\<lparr>finished := True,
                                  queue := Some (consumer_producer_signal_finished q)\<rparr>))
                   else (fst r, Blocked))))"

text \<open>
  \<^verbatim>\<open>pthread_join\<close> on the worker: it returns 0 once the worker has returned, and does
  not return while the worker is still waiting in \<^verbatim>\<open>get\<close>.
\<close>

definition worker_join :: "plugin_context_t \<Rightarrow> string option list \<Rightarrow> int blocking" where
  "worker_join plugin_ctx gets =
     (case snd (plugin_consumer_thread plugin_ctx gets) of
        Blocked \<Rightarrow> Blocked
      | Returned ctx' \<Rightarrow> Returned 0)"

text \<open>
  \<^verbatim>\<open>plugin_fini\<close>; \<open>joined\<close> is what \<^verbatim>\<open>pthread_join\<close> on the worker does. A call that
  never returns is \<open>Blocked\<close>.
\<close>

definition plugin_fini ::
  "int blocking \<Rightarrow> plugin_context_t \<Rightarrow> string option blocking \<times> plugin_context_t" where
  "plugin_fini joined ctx =
     (let cleared = (\<lambda>c. c\<lparr>queue := None, process_function := None,
                             next_place_work := None, initialized := False\<rparr>) in
      if \<not> initialized ctx then (Returned (Some ''plugin not initialized''), ctx)
      else if consumer_thread ctx \<noteq> 0 then
        (case joined of
           Blocked \<Rightarrow> (Blocked, ctx)
         | Returned return_code \<Rightarrow>
             if return_code \<noteq> 0 then
               (Returned (Some ''pthread_join failed in plugin_fini''), ctx)
             else (Returned None, cleared (ctx\<lparr>consumer_thread := 0\<rparr>)))
      else (Returned None, cleared ctx))"

text \<open>The first result of \<^verbatim>\<open>get\<close> that makes the worker leave its loop, if any: the
  terminator or NULL.\<close>

definition loop_exit :: "string option list \<Rightarrow> string option option" where
  "loop_exit gets = find (\<lambda>g. g = None \<or> g = Some ''<END>'') gets"

section \<open>The driver\<close>

text \<open>
  \<^verbatim>\<open>plugin_handle_t\<close>. A function pointer is an optional function (\<open>None\<close> is NULL) that
  gives what a call returns; a call of \<^verbatim>\<open>fini\<close> may also never return (\<open>Blocked\<close>),
  since \<^verbatim>\<open>plugin_fini\<close> joins the stage's worker. An error string that a call returns
  stays owned by the stage's module: it lives in the memory of the shared object behind
  \<^verbatim>\<open>handle\<close>. The field \<^verbatim>\<open>name\<close> of the source is \<open>plugin_name\<close> here.
\<close>

record plugin_handle_t =
  init :: "(int \<Rightarrow> string option) option"
  fini :: "(unit \<Rightarrow> string option blocking) option"
  place_work :: "(string option \<Rightarrow> string option) option"
  attach :: "(unit \<Rightarrow> unit) option"
  wait_finished :: "(unit \<Rightarrow> string option) option"
  plugin_name :: "string option"
  handle :: "nat option"

text \<open>
  What the driver does to the outside: calls into the stage at an index, \<^verbatim>\<open>dlclose\<close> of
  the handle and \<^verbatim>\<open>free\<close> of the name of the stage at an index, text on stderr, the
  usage text on stdout. A driver function returns, or the process exits with a code, or
  it never gets back from a call into a stage (\<open>Hangs\<close>), or the process is killed by an
  invalid memory access (\<open>Crashes\<close>): a call through a NULL function pointer, or a read
  of a string in the memory of a module that has been closed.
\<close>

datatype driver_event =
    CallInit nat int
  | CallFini nat
  | CallWaitFinished nat
  | CallPlaceWork string
  | Dlclose nat
  | FreeName nat
  | Stderr string
  | PrintUsage string

datatype outcome = Returns | Exits int | Hangs | Crashes

fun string_of_nat :: "nat \<Rightarrow> string" where
  "string_of_nat n =
     (if n < 10 then [char_of (48 + n)]
      else string_of_nat (n div 10) @ [char_of (48 + n mod 10)])"

definition quote :: char where
  "quote = CHR 0x27"

text \<open>\<^verbatim>\<open>p[i].name ? p[i].name : dflt\<close>\<close>

definition name_or :: "string \<Rightarrow> plugin_handle_t \<Rightarrow> string" where
  "name_or dflt ph = (case plugin_name ph of None \<Rightarrow> dflt | Some n \<Rightarrow> n)"

text \<open>\<^verbatim>\<open>print_error_and_exit\<close>; the global \<^verbatim>\<open>g_prog\<close> is its first argument, and the
  formatted message arrives as one string.\<close>

definition print_error_and_exit ::
  "string option \<Rightarrow> int \<Rightarrow> bool \<Rightarrow> string option \<Rightarrow> string \<Rightarrow> driver_event list \<times> outcome" where
  "print_error_and_exit g_prog exit_code print_usage prefix_line msg =
     ((case prefix_line of
         None \<Rightarrow> []
       | Some pre \<Rightarrow> if pre \<noteq> [] then [Stderr pre] else [])
      @ [Stderr (msg @ [newline])]
      @ (case g_prog of
           None \<Rightarrow> []
         | Some prog \<Rightarrow> if print_usage then [PrintUsage prog] else []),
      Exits exit_code)"

subsection \<open>Step 1: the command line\<close>

text \<open>
  \<^verbatim>\<open>strtol(nptr, &endptr, 10)\<close> of the C library, for a 64-bit \<^verbatim>\<open>long\<close> (the project
  is built with GCC 13 on Linux/glibc): white space is skipped, one sign is read, then the
  decimal digits; the value is clamped to the range of \<^verbatim>\<open>long\<close>; without any digit
  the value is 0 and \<^verbatim>\<open>endptr\<close> is \<^verbatim>\<open>nptr\<close>. The result is the value and the rest of
  the string at \<^verbatim>\<open>endptr\<close>.
\<close>

definition isspace :: "char \<Rightarrow> bool" where
  "isspace c \<longleftrightarrow> (of_char c :: nat) \<in> {32, 9, 10, 11, 12, 13}"

definition isdigit :: "char \<Rightarrow> bool" where
  "isdigit c \<longleftrightarrow> 48 \<le> (of_char c :: nat) \<and> (of_char c :: nat) \<le> 57"

definition LONG_MAX :: int where
  "LONG_MAX = 2 ^ 63 - 1"

definition LONG_MIN :: int where
  "LONG_MIN = - (2 ^ 63)"

definition decimal_value :: "string \<Rightarrow> int" where
  "decimal_value ds = foldl (\<lambda>acc c. acc * 10 + (int (of_char c) - 48)) 0 ds"

definition strtol :: "string \<Rightarrow> int \<times> string" where
  "strtol nptr =
     (let s1 = dropWhile isspace nptr;
          neg = (case s1 of [] \<Rightarrow> False | c # _ \<Rightarrow> c = CHR ''-'');
          s2 = (case s1 of
                  [] \<Rightarrow> []
                | c # cs \<Rightarrow> if c = CHR ''-'' \<or> c = CHR ''+'' then cs else s1);
          ds = takeWhile isdigit s2
      in if ds = [] then (0, nptr)
         else (max LONG_MIN (min LONG_MAX (if neg then - decimal_value ds else decimal_value ds)),
               dropWhile isdigit s2))"

text \<open>The conversion \<^verbatim>\<open>(int)queue_size_value\<close> of a \<^verbatim>\<open>long\<close> to a 32-bit \<^verbatim>\<open>int\<close>: GCC
  reduces the value modulo \<open>2^32\<close>.\<close>

definition int_of_long :: "int \<Rightarrow> int" where
  "int_of_long v = sint (word_of_int v :: 32 word)"

record pipeline_configuration_t =
  queue_size :: int
  selected_plugin_count :: int

text \<open>
  \<^verbatim>\<open>parse_command_line\<close>: \<open>argv\<close> is the argument vector (\<open>argc\<close> its length), the two
  flags say whether the two \<^verbatim>\<open>calloc\<close> calls succeed. The result is the exit, or the
  configuration with the stage names.
\<close>

definition parse_command_line ::
  "bool \<Rightarrow> bool \<Rightarrow> string list
     \<Rightarrow> (driver_event list \<times> outcome) + (pipeline_configuration_t \<times> string list)" where
  "parse_command_line calloc_plugins_ok calloc_names_ok argv =
     (let g_prog = (case argv of [] \<Rightarrow> None | a # _ \<Rightarrow> Some a) in
      if int (length argv) < 3 then
        Inl (print_error_and_exit g_prog 1 True None ''Missing arguments'')
      else
        (let r = strtol (argv ! 1); queue_size_value = fst r; endptr_after_number = snd r in
         if endptr_after_number \<noteq> [] \<or> queue_size_value < 1 then
           Inl (print_error_and_exit g_prog 1 True None
                  (''invalid queue size (must be greater than 0): '' @ [quote] @ argv ! 1 @ [quote]))
         else
           (let cfg = \<lparr>queue_size = int_of_long queue_size_value,
                       selected_plugin_count = int (length argv) - 2\<rparr> in
            if selected_plugin_count cfg \<le> 0 then
              Inl (print_error_and_exit g_prog 1 True None ''No plugins specified'')
            else if \<not> calloc_plugins_ok then
              Inl (print_error_and_exit g_prog 1 False None ''calloc plugins failed'')
            else if \<not> calloc_names_ok then
              Inl (print_error_and_exit g_prog 1 False None ''calloc names failed'')
            else Inr (cfg, drop 2 argv))))"

subsection \<open>Step 3: initialisation and rollback\<close>

text \<open>What both rollback loops of \<^verbatim>\<open>init_plugin\<close> and the second loop of \<^verbatim>\<open>teardown\<close>
  do to stage \<open>j\<close> after its \<^verbatim>\<open>fini\<close>: \<^verbatim>\<open>dlclose\<close> of the handle when it is set, and
  \<^verbatim>\<open>free\<close> of the name.\<close>

definition close_stage :: "plugin_handle_t list \<Rightarrow> nat \<Rightarrow> driver_event list" where
  "close_stage p j =
     (case handle (p ! j) of None \<Rightarrow> [] | Some h \<Rightarrow> [Dlclose j]) @ [FreeName j]"

text \<open>The body of the first rollback loop of \<^verbatim>\<open>init_plugin\<close> for stage \<open>j\<close>: the events,
  and whether the body was left (\<open>False\<close> when the call of \<^verbatim>\<open>fini\<close> never returns).\<close>

definition rollback_stage :: "plugin_handle_t list \<Rightarrow> nat \<Rightarrow> driver_event list \<times> bool" where
  "rollback_stage p j =
     (case fini (p ! j) of
        None \<Rightarrow> (close_stage p j, True)
      | Some f \<Rightarrow>
          (case f () of
             Blocked \<Rightarrow> ([CallFini j], False)
           | Returned None \<Rightarrow> (CallFini j # close_stage p j, True)
           | Returned (Some ferr) \<Rightarrow>
               (CallFini j
                # Stderr (''plugin_fini('' @ name_or ''(null)'' (p ! j)
                          @ '') error during rollback: '' @ ferr @ [newline])
                # close_stage p j,
                True)))"

text \<open>\<^verbatim>\<open>for (int j = i; j >= 0; --j)\<close>\<close>

fun rollback_down :: "plugin_handle_t list \<Rightarrow> nat \<Rightarrow> driver_event list \<times> bool" where
  "rollback_down p 0 = rollback_stage p 0"
| "rollback_down p (Suc j) =
     (let r = rollback_stage p (Suc j) in
      if snd r then (let r' = rollback_down p j in (fst r @ fst r', snd r'))
      else r)"

text \<open>The second loop, \<^verbatim>\<open>for (int j = i + 1; j < plugins_count; ++j)\<close>.\<close>

definition close_rest :: "plugin_handle_t list \<Rightarrow> nat \<Rightarrow> driver_event list" where
  "close_rest p i = concat (map (close_stage p) [i + 1..<length p])"

text \<open>
  What \<^verbatim>\<open>init_plugin\<close> does once \<^verbatim>\<open>p[i].init\<close> has returned \<open>err\<close>. The two lines on
  stderr are written first. If a \<^verbatim>\<open>fini\<close> of the rollback never returns, neither does
  the driver. Otherwise the last statement, \<^verbatim>\<open>print_error_and_exit(2, ...)\<close>, formats
  \<open>err\<close> once more: \<open>err\<close> is a pointer into the memory of stage \<open>i\<close>'s module, and the
  first rollback pass has closed that module when its handle is set, so the read is of
  memory that is no longer mapped. Only the name was copied before (\<open>failing_name\<close>).
\<close>

definition init_failed ::
  "string option \<Rightarrow> plugin_handle_t list \<Rightarrow> nat \<Rightarrow> string \<Rightarrow> driver_event list \<times> outcome" where
  "init_failed g_prog p i err =
     (let failing_name = take 255 (name_or ''(unknown)'' (p ! i));
          printed = [Stderr (''Initialize Plugins failed'' @ [newline]),
                     Stderr (''plugin_init('' @ failing_name @ '') error: '' @ err @ [newline])];
          rb = rollback_down p i
      in if \<not> snd rb then (printed @ fst rb, Hangs)
         else
           (case handle (p ! i) of
              Some h \<Rightarrow> (printed @ fst rb @ close_rest p i, Crashes)
            | None \<Rightarrow>
                (let e = print_error_and_exit g_prog 2 False None
                           (''plugin_init('' @ failing_name @ '') error: '' @ err)
                 in (printed @ fst rb @ close_rest p i @ fst e, snd e))))"

text \<open>The loop of \<^verbatim>\<open>init_plugin\<close> from index \<open>i\<close>; \<open>plugins_count\<close> is the length of \<open>p\<close>.\<close>

function init_loop ::
  "string option \<Rightarrow> plugin_handle_t list \<Rightarrow> int \<Rightarrow> nat \<Rightarrow> driver_event list \<times> outcome" where
  "init_loop g_prog p qsize i =
     (if i < length p then
        (case init (p ! i) of
           None \<Rightarrow> ([], Crashes)
         | Some f \<Rightarrow>
             (case f qsize of
                None \<Rightarrow>
                  (let r = init_loop g_prog p qsize (i + 1)
                   in (CallInit i qsize # fst r, snd r))
              | Some err \<Rightarrow>
                  (let r = init_failed g_prog p i err
                   in (CallInit i qsize # fst r, snd r))))
      else ([], Returns))"
  by pat_completeness auto
termination
  by (relation "measure (\<lambda>(g_prog, p, qsize, i). length p - i)") auto

definition init_plugin ::
  "string option \<Rightarrow> plugin_handle_t list \<Rightarrow> int \<Rightarrow> driver_event list \<times> outcome" where
  "init_plugin g_prog p qsize = init_loop g_prog p qsize 0"

subsection \<open>Step 5: feeding stdin\<close>

definition MAX_LINE_LEN :: nat where
  "MAX_LINE_LEN = 1024"

text \<open>
  \<^verbatim>\<open>fgets(buf, sz, stdin)\<close> of the C library on the bytes still unread: at most
  \<open>sz - 1\<close> bytes, up to and including the first newline; NULL (\<open>None\<close>) at the end of
  the input. The result is the bytes stored and the bytes left unread. Read errors are not
  modelled.
\<close>

definition fgets :: "nat \<Rightarrow> string \<Rightarrow> (string \<times> string) option" where
  "fgets sz inp =
     (if inp = [] then None
      else
        (let window = take (sz - 1) inp;
             l = takeWhile (\<lambda>c. c \<noteq> newline) window
         in if length l < length window
            then Some (take (length l + 1) inp, drop (length l + 1) inp)
            else Some (window, drop (sz - 1) inp)))"

text \<open>
  One pass of the body of the loop of \<^verbatim>\<open>feed_input\<close> up to the call of
  \<^verbatim>\<open>place_work\<close>: the line to submit and the bytes left unread. \<^verbatim>\<open>strlen\<close> and
  \<^verbatim>\<open>strcmp\<close> see the buffer up to its first NUL byte.
\<close>

definition read_line :: "string \<Rightarrow> (string \<times> string) option" where
  "read_line inp =
     (case fgets (MAX_LINE_LEN + 1) inp of
        None \<Rightarrow> None
      | Some (line_buffer, unread) \<Rightarrow>
          (let str = takeWhile (\<lambda>c. c \<noteq> CHR 0x00) line_buffer;
               line_len = length str;
               had_trailing_newline = (line_len \<noteq> 0 \<and> str ! (line_len - 1) = newline);
               line = (if had_trailing_newline then take (line_len - 1) str else str);
               unread' =
                 (if \<not> had_trailing_newline \<and> length line = MAX_LINE_LEN then
                    (case unread of
                       [] \<Rightarrow> []
                     | next_char # cs \<Rightarrow> if next_char \<noteq> newline then unread else cs)
                  else unread)
           in Some (line, unread')))"

text \<open>The loop of \<^verbatim>\<open>feed_input\<close> on the bytes of stdin still unread; \<open>place\<close> is
  \<^verbatim>\<open>first_plugin->place_work\<close>.\<close>

function feed_loop ::
  "string option \<Rightarrow> (string option \<Rightarrow> string option) \<Rightarrow> string
     \<Rightarrow> driver_event list \<times> outcome" where
  "feed_loop g_prog place inp =
     (case read_line inp of
        None \<Rightarrow> ([], Returns)
      | Some (line, unread) \<Rightarrow>
          if line = ''<END>'' then
            (case place (Some ''<END>'') of
               Some err \<Rightarrow>
                 (let e = print_error_and_exit g_prog 1 False None
                            (''place_work('' @ [quote] @ ''<END>'' @ [quote] @ '') error: '' @ err)
                  in (CallPlaceWork ''<END>'' # fst e, snd e))
             | None \<Rightarrow> ([CallPlaceWork ''<END>''], Returns))
          else
            (case place (Some line) of
               Some err \<Rightarrow>
                 (let e = print_error_and_exit g_prog 1 False None (''place_work error: '' @ err)
                  in (CallPlaceWork line # fst e, snd e))
             | None \<Rightarrow>
                 (let r = feed_loop g_prog place unread
                  in (CallPlaceWork line # fst r, snd r))))"
  by pat_completeness auto
termination
proof (relation "measure (\<lambda>(g_prog, place, inp). length inp)")
  show "wf (measure (\<lambda>(g_prog, place, inp). length inp))"
    by simp
next
  fix g_prog :: "string option" and place :: "string option \<Rightarrow> string option"
    and inp :: string and x2 :: "string \<times> string" and line unread :: string
  assume r: "read_line inp = Some x2" and x: "(line, unread) = x2"
  from r obtain line_buffer rest where
    f: "fgets (MAX_LINE_LEN + 1) inp = Some (line_buffer, rest)"
    by (auto simp: read_line_def split: option.splits)
  from f have ne: "inp \<noteq> []"
    by (auto simp: fgets_def split: if_splits)
  from f ne have "length rest < length inp"
    by (auto simp: fgets_def Let_def MAX_LINE_LEN_def split: if_splits)
  moreover from r x f have "length unread \<le> length rest"
    by (auto simp: read_line_def Let_def split: list.splits if_splits)
  ultimately show "((g_prog, place, unread), (g_prog, place, inp))
        \<in> measure (\<lambda>(g_prog, place, inp). length inp)"
    by simp
qed

definition feed_input ::
  "string option \<Rightarrow> plugin_handle_t \<Rightarrow> string \<Rightarrow> driver_event list \<times> outcome" where
  "feed_input g_prog first_plugin stdin =
     (case place_work first_plugin of
        None \<Rightarrow> print_error_and_exit g_prog 1 False None ''feed_input: invalid pipeline entry''
      | Some place \<Rightarrow> feed_loop g_prog place stdin)"

text \<open>The consecutive pieces of at most \<open>n\<close> bytes of a line.\<close>

fun chunks :: "nat \<Rightarrow> string \<Rightarrow> string list" where
  "chunks n xs =
     (if n = 0 \<or> xs = [] then [] else take n xs # chunks n (drop n xs))"

subsection \<open>Steps 6 and 7: shutdown\<close>

text \<open>The first loop of \<^verbatim>\<open>teardown\<close> from index \<open>i\<close>; \<open>n\<close> is the length of \<open>p\<close>.\<close>

function teardown_wait ::
  "string option \<Rightarrow> plugin_handle_t list \<Rightarrow> nat \<Rightarrow> driver_event list \<times> outcome" where
  "teardown_wait g_prog p i =
     (if i < length p then
        (case wait_finished (p ! i) of
           None \<Rightarrow>
             print_error_and_exit g_prog 1 False None
               (''plugin '' @ string_of_nat i @ '' ('' @ [quote] @ name_or ''(null)'' (p ! i)
                @ [quote] @ '') missing wait_finished'')
         | Some wait_fn \<Rightarrow>
             (case wait_fn () of
                Some werr \<Rightarrow>
                  (let e = print_error_and_exit g_prog 1 False None
                             (''plugin_wait_finished('' @ name_or ''(null)'' (p ! i)
                              @ '') error: '' @ werr)
                   in (CallWaitFinished i # fst e, snd e))
              | None \<Rightarrow>
                  (let r = teardown_wait g_prog p (i + 1)
                   in (CallWaitFinished i # fst r, snd r))))
      else ([], Returns))"
  by pat_completeness auto
termination
  by (relation "measure (\<lambda>(g_prog, p, i). length p - i)") auto

text \<open>The second loop of \<^verbatim>\<open>teardown\<close>, \<^verbatim>\<open>for (int i = n - 1; i >= 0; --i)\<close>:
  \<open>teardown_fini g_prog p k\<close> runs it from index \<open>k - 1\<close> down to 0.\<close>

fun teardown_fini ::
  "string option \<Rightarrow> plugin_handle_t list \<Rightarrow> nat \<Rightarrow> driver_event list \<times> outcome" where
  "teardown_fini g_prog p 0 = ([], Returns)"
| "teardown_fini g_prog p (Suc i) =
     (case fini (p ! i) of
        None \<Rightarrow>
          print_error_and_exit g_prog 1 False None
            (''plugin '' @ string_of_nat i @ '' ('' @ [quote] @ name_or ''(null)'' (p ! i)
             @ [quote] @ '') missing fini'')
      | Some f \<Rightarrow>
          (case f () of
             Blocked \<Rightarrow> ([CallFini i], Hangs)
           | Returned (Some ferr) \<Rightarrow>
               (let e = print_error_and_exit g_prog 1 False None
                          (''plugin_fini('' @ name_or ''(null)'' (p ! i) @ '') error: '' @ ferr)
                in (CallFini i # fst e, snd e))
           | Returned None \<Rightarrow>
               (let r = teardown_fini g_prog p i
                in (CallFini i # close_stage p i @ fst r, snd r))))"

definition teardown ::
  "string option \<Rightarrow> plugin_handle_t list \<Rightarrow> driver_event list \<times> outcome" where
  "teardown g_prog p =
     (let w = teardown_wait g_prog p 0 in
      case snd w of
        Returns \<Rightarrow> (let f = teardown_fini g_prog p (length p) in (fst w @ fst f, snd f))
      | Exits code \<Rightarrow> w
      | Hangs \<Rightarrow> w
      | Crashes \<Rightarrow> w)"

section \<open>Concrete stages and pipelines\<close>

definition ok_plugin_env :: plugin_env where
  "ok_plugin_env = \<lparr>queue_malloc_ok = True, queue_init_env = ok_init_env,
                     pthread_create_rc = 0, created_thread = 1\<rparr>"

text \<open>The static \<^verbatim>\<open>global_plugin_context\<close> of a stage module as the module is loaded.\<close>

definition global_plugin_context :: plugin_context_t where
  "global_plugin_context = \<lparr>name = None, queue = None, consumer_thread = 0,
                             next_place_work = None, process_function = None,
                             initialized = False, finished = False\<rparr>"

text \<open>The context of a rotator stage after a successful \<^verbatim>\<open>plugin_init(4)\<close>.\<close>

definition running_ctx :: plugin_context_t where
  "running_ctx = \<lparr>name = Some ''rotator'', queue = Some (empty_queue 4), consumer_thread = 1,
                   next_place_work = None,
                   process_function = Some (rotator_plugin_transform True),
                   initialized = True, finished = False\<rparr>"

text \<open>What a call into stage \<open>j\<close> of a pipeline returns: the function pointer is there
  and the call returns NULL (\<open>ok\<close>), or it returns the error string \<open>err\<close> (\<open>fails\<close>).\<close>

definition init_ok_at :: "plugin_handle_t list \<Rightarrow> int \<Rightarrow> nat \<Rightarrow> bool" where
  "init_ok_at p qsize j = (case init (p ! j) of None \<Rightarrow> False | Some f \<Rightarrow> f qsize = None)"

definition init_fails_at :: "plugin_handle_t list \<Rightarrow> int \<Rightarrow> nat \<Rightarrow> string \<Rightarrow> bool" where
  "init_fails_at p qsize j err =
     (case init (p ! j) of None \<Rightarrow> False | Some f \<Rightarrow> f qsize = Some err)"

definition wait_ok_at :: "plugin_handle_t list \<Rightarrow> nat \<Rightarrow> bool" where
  "wait_ok_at p j = (case wait_finished (p ! j) of None \<Rightarrow> False | Some f \<Rightarrow> f () = None)"

definition wait_fails_at :: "plugin_handle_t list \<Rightarrow> nat \<Rightarrow> string \<Rightarrow> bool" where
  "wait_fails_at p j err =
     (case wait_finished (p ! j) of None \<Rightarrow> False | Some f \<Rightarrow> f () = Some err)"

definition fini_ok_at :: "plugin_handle_t list \<Rightarrow> nat \<Rightarrow> bool" where
  "fini_ok_at p j =
     (case fini (p ! j) of None \<Rightarrow> False | Some f \<Rightarrow> f () = Returned None)"

definition fini_fails_at :: "plugin_handle_t list \<Rightarrow> nat \<Rightarrow> string \<Rightarrow> bool" where
  "fini_fails_at p j err =
     (case fini (p ! j) of None \<Rightarrow> False | Some f \<Rightarrow> f () = Returned (Some err))"

text \<open>The line that \<^verbatim>\<open>teardown\<close> writes to stderr for a failed call into stage \<open>k\<close>.\<close>

definition wait_error_line :: "plugin_handle_t list \<Rightarrow> nat \<Rightarrow> string \<Rightarrow> driver_event" where
  "wait_error_line p k werr =
     Stderr (''plugin_wait_finished('' @ name_or ''(null)'' (p ! k) @ '') error: '' @ werr @ [newline])"

definition fini_error_line :: "plugin_handle_t list \<Rightarrow> nat \<Rightarrow> string \<Rightarrow> driver_event" where
  "fini_error_line p k ferr =
     Stderr (''plugin_fini('' @ name_or ''(null)'' (p ! k) @ '') error: '' @ ferr @ [newline])"

text \<open>A loaded stage all of whose calls succeed, one whose \<^verbatim>\<open>wait_finished\<close> fails,
  one whose \<^verbatim>\<open>fini\<close> fails.\<close>

definition good_stage :: plugin_handle_t where
  "good_stage = \<lparr>init = Some (\<lambda>q. None), fini = Some (\<lambda>u. Returned None),
                  place_work = Some (\<lambda>s. None), attach = Some (\<lambda>u. ()),
                  wait_finished = Some (\<lambda>u. None),
                  plugin_name = Some ''logger'', handle = Some 1\<rparr>"

definition bad_wait_stage :: plugin_handle_t where
  "bad_wait_stage = \<lparr>init = Some (\<lambda>q. None), fini = Some (\<lambda>u. Returned None),
                      place_work = Some (\<lambda>s. None), attach = Some (\<lambda>u. ()),
                      wait_finished = Some (\<lambda>u. Some ''wait_finished failed''),
                      plugin_name = Some ''flipper'', handle = Some 3\<rparr>"

definition bad_fini_stage :: plugin_handle_t where
  "bad_fini_stage = \<lparr>init = Some (\<lambda>q. None),
                      fini = Some (\<lambda>u. Returned (Some ''pthread_join failed in plugin_fini'')),
                      place_work = Some (\<lambda>s. None), attach = Some (\<lambda>u. ()),
                      wait_finished = Some (\<lambda>u. None),
                      plugin_name = Some ''expander'', handle = Some 4\<rparr>"

text \<open>
  The logger stage as the driver meets it during initialisation; \<^verbatim>\<open>init\<close> and
  \<^verbatim>\<open>fini\<close> are \<^verbatim>\<open>common_plugin_init\<close> and \<^verbatim>\<open>plugin_fini\<close> on the module's context.
  \<^item> \<open>logger_stage_rejected\<close>: in a run whose queue size is below 1. \<^verbatim>\<open>init\<close> fails and
    leaves the static context as it was, so the other calls answer
    \<open>plugin not initialized\<close>.
  \<^item> \<open>logger_stage_started\<close>: in a run with queue size 10. \<^verbatim>\<open>init\<close> succeeds; no work
    has been placed yet, so the worker is waiting in \<^verbatim>\<open>get\<close> and \<^verbatim>\<open>fini\<close> joins it.
  \<^item> \<open>logger_stage_again\<close>: the same module named a second time and loaded with
    \<^verbatim>\<open>dlopen\<close> (\<^verbatim>\<open>ANALYZER_DLMOPEN=0\<close>), so that it shares the context that the first
    stage has initialised.
  \<^item> \<open>uppercaser_stage_starved\<close>: an uppercaser stage whose \<^verbatim>\<open>init\<close> cannot allocate its
    queue object.
\<close>

definition logger_process :: "string option \<Rightarrow> string option" where
  "logger_process s = snd (logger_plugin_transform True s)"

definition logger_stage_rejected :: plugin_handle_t where
  "logger_stage_rejected =
     \<lparr>init = Some (\<lambda>q. fst (common_plugin_init ok_plugin_env global_plugin_context
                                (Some logger_process) (Some ''logger'') q)),
       fini = Some (\<lambda>u. fst (plugin_fini (Returned 0) global_plugin_context)),
       place_work = Some (\<lambda>s. Some ''plugin not initialized''),
       attach = Some (\<lambda>u. ()),
       wait_finished = Some (\<lambda>u. Some ''plugin not initialized''),
       plugin_name = Some ''logger'', handle = Some 1\<rparr>"

definition started_ctx :: plugin_context_t where
  "started_ctx = snd (common_plugin_init ok_plugin_env global_plugin_context
                        (Some logger_process) (Some ''logger'') 10)"

definition logger_stage_started :: plugin_handle_t where
  "logger_stage_started =
     \<lparr>init = Some (\<lambda>q. fst (common_plugin_init ok_plugin_env global_plugin_context
                                (Some logger_process) (Some ''logger'') q)),
       fini = Some (\<lambda>u. fst (plugin_fini (worker_join started_ctx []) started_ctx)),
       place_work = Some (\<lambda>s. None),
       attach = Some (\<lambda>u. ()),
       wait_finished = Some (\<lambda>u. None),
       plugin_name = Some ''logger'', handle = Some 1\<rparr>"

definition logger_stage_again :: plugin_handle_t where
  "logger_stage_again =
     \<lparr>init = Some (\<lambda>q. fst (common_plugin_init ok_plugin_env started_ctx
                                (Some logger_process) (Some ''logger'') q)),
       fini = Some (\<lambda>u. fst (plugin_fini (worker_join started_ctx []) started_ctx)),
       place_work = Some (\<lambda>s. None),
       attach = Some (\<lambda>u. ()),
       wait_finished = Some (\<lambda>u. None),
       plugin_name = Some ''logger'', handle = Some 1\<rparr>"

definition uppercaser_stage_starved :: plugin_handle_t where
  "uppercaser_stage_starved =
     \<lparr>init = Some (\<lambda>q. fst (common_plugin_init (ok_plugin_env\<lparr>queue_malloc_ok := False\<rparr>)
                                global_plugin_context
                                (Some (uppercaser_plugin_transform True)) (Some ''uppercaser'') q)),
       fini = Some (\<lambda>u. fst (plugin_fini (Returned 0) global_plugin_context)),
       place_work = Some (\<lambda>s. Some ''plugin not initialized''),
       attach = Some (\<lambda>u. ()),
       wait_finished = Some (\<lambda>u. Some ''plugin not initialized''),
       plugin_name = Some ''uppercaser'', handle = Some 2\<rparr>"

declare init_loop.simps [simp del]

declare teardown_wait.simps [simp del]

declare chunks.simps [simp del]

declare feed_loop.simps [simp del]

section \<open>Properties of the transforms\<close>

subsection \<open>NULL input\<close>

text \<open>
  C9. Each of the six transforms, invoked with a NULL input pointer, returns a newly
  allocated empty string (given that the allocation of that string succeeds); logger and
  typewriter write nothing to stdout in that case.
\<close>

theorem transforms_null_input:
  "logger_plugin_transform True None = ('''', Some '''')
   \<and> uppercaser_plugin_transform True None = Some ''''
   \<and> rotator_plugin_transform True None = Some ''''
   \<and> flipper_plugin_transform True None = Some ''''
   \<and> expander_plugin_transform True None = Some ''''
   \<and> typewriter_plugin_transform True None = ('''', Some '''')"
  by (simp add: logger_plugin_transform_def uppercaser_plugin_transform_def
      rotator_plugin_transform_def flipper_plugin_transform_def
      expander_plugin_transform_def typewriter_plugin_transform_def strdup_def)

subsection \<open>The rotator round trip\<close>

lemma rotator_single:
  "rotator_plugin_transform True (Some s) = Some (if s = ''<END>'' then s else rrot s)"
proof (cases "length s \<le> 1")
  case True
  then have "s = [] \<or> (\<exists>c. s = [c])"
    by (cases s) auto
  then show ?thesis
    by (auto simp: rotator_plugin_transform_def is_end_line_def strdup_def rrot_def)
next
  case False
  then have ne: "s \<noteq> []" by auto
  have "s ! (length s - 1) # take (length s - 1) s = last s # butlast s"
    using ne by (simp add: last_conv_nth butlast_conv_take)
  then show ?thesis
    using False ne
    by (simp add: rotator_plugin_transform_def is_end_line_def strdup_def rrot_def)
qed

lemma rotate1_rrot: "rotate1 (rrot s) = s"
  by (simp add: rrot_def)

lemma rrot_rotate1: "rrot (rotate1 s) = s"
  by (cases s) (simp_all add: rrot_def)

lemma rotate_rrot_funpow: "rotate j ((rrot ^^ j) s) = s"
proof (induction j arbitrary: s)
  case 0
  then show ?case by simp
next
  case (Suc j)
  have "rotate (Suc j) ((rrot ^^ Suc j) s) = rotate j (rotate1 (rrot ((rrot ^^ j) s)))"
    by (simp add: rotate_def funpow_swap1)
  also have "\<dots> = s"
    by (simp add: rotate1_rrot Suc.IH)
  finally show ?case .
qed

lemma rrot_funpow_rotate: "(rrot ^^ j) (rotate j s) = s"
proof (induction j arbitrary: s)
  case 0
  then show ?case by simp
next
  case (Suc j)
  have "(rrot ^^ Suc j) (rotate (Suc j) s) = (rrot ^^ j) (rrot (rotate1 (rotate j s)))"
    by (simp add: funpow_swap1)
  also have "\<dots> = s"
    by (simp add: rrot_rotate1 Suc.IH)
  finally show ?case .
qed

lemma rrot_funpow_length: "(rrot ^^ length s) s = s"
proof -
  have "rotate (length s) s = s"
    by (rule rotate_id) simp
  then show ?thesis
    using rrot_funpow_rotate [of "length s" s] by simp
qed

lemma length_rrot [simp]: "length (rrot s) = length s"
  by (simp add: rrot_def)

lemma rotator_times_rrot:
  "\<forall>j<k. (rrot ^^ j) s \<noteq> ''<END>'' \<Longrightarrow> rotator_times True k s = Some ((rrot ^^ k) s)"
proof (induction k arbitrary: s)
  case 0
  then show ?case by simp
next
  case (Suc k)
  from Suc.prems have s: "s \<noteq> ''<END>''" by force
  have "\<forall>j<k. (rrot ^^ j) (rrot s) \<noteq> ''<END>''"
  proof (intro allI impI)
    fix j assume "j < k"
    then have "(rrot ^^ Suc j) s \<noteq> ''<END>''" using Suc.prems by blast
    then show "(rrot ^^ j) (rrot s) \<noteq> ''<END>''" by (simp add: funpow_swap1)
  qed
  then have "rotator_times True k (rrot s) = Some ((rrot ^^ k) (rrot s))"
    by (rule Suc.IH)
  then show ?case
    using s by (simp add: rotator_single funpow_swap1)
qed

lemma rotate_END_cases:
  assumes "j < 5"
  shows "rotate j ''<END>'' \<in> {''<END>'', ''END><'', ''ND><E'', ''D><EN'', ''><END''}"
proof -
  from assms have "j = 0 \<or> j = 1 \<or> j = 2 \<or> j = 3 \<or> j = 4" by arith
  then show ?thesis
    by (elim disjE) (simp_all add: rotate_def numeral_2_eq_2 numeral_3_eq_3 eval_nat_numeral)
qed

lemma rotator_times_END: "rotator_times True k ''<END>'' = Some ''<END>''"
  by (induction k) (simp_all add: rotator_single)

text \<open>
  C7 (as amended). For every input \<open>s\<close> of length \<open>n\<close> that is not one of the four proper
  rotations of the terminator (\<open>><END\<close>, \<open>D><EN\<close>, \<open>ND><E\<close>, \<open>END><\<close>), applying the
  rotator \<open>n\<close> times yields \<open>s\<close>. A single application returns a copy of \<open>s\<close> when
  \<open>n \<le> 1\<close> or \<open>s\<close> is the terminator \<open><END>\<close>, and \<open>s[n-1] + s[0..n-1]\<close> otherwise.
\<close>

theorem rotator_round_trip:
  assumes "s \<notin> {''><END'', ''D><EN'', ''ND><E'', ''END><''}"
  shows "rotator_times True (length s) s = Some s
         \<and> rotator_plugin_transform True (Some s) =
             Some (if length s \<le> 1 \<or> s = ''<END>'' then s
                   else s ! (length s - 1) # take (length s - 1) s)"
proof
  show "rotator_times True (length s) s = Some s"
  proof (cases "s = ''<END>''")
    case True
    show ?thesis unfolding True by (rule rotator_times_END)
  next
    case False
    have "\<forall>j<length s. (rrot ^^ j) s \<noteq> ''<END>''"
    proof (intro allI impI notI)
      fix j assume j: "j < length s" and e: "(rrot ^^ j) s = ''<END>''"
      have "s = rotate j ''<END>''"
        using rotate_rrot_funpow [of j s] e by simp
      moreover from this have "length s = 5" by simp
      ultimately have "s \<in> {''<END>'', ''END><'', ''ND><E'', ''D><EN'', ''><END''}"
        using rotate_END_cases [of j] j by simp
      with False assms show False by auto
    qed
    then show ?thesis
      by (simp add: rotator_times_rrot rrot_funpow_length)
  qed
next
  show "rotator_plugin_transform True (Some s) =
             Some (if length s \<le> 1 \<or> s = ''<END>'' then s
                   else s ! (length s - 1) # take (length s - 1) s)"
    by (simp add: rotator_plugin_transform_def is_end_line_def strdup_def)
qed

theorem rotator_round_trip_witness:
  "''hello'' \<notin> {''><END'', ''D><EN'', ''ND><E'', ''END><''}
   \<and> rotator_times True (length ''hello'') ''hello'' = Some ''hello''
   \<and> rotator_plugin_transform True (Some ''hello'') = Some ''ohell''"
proof -
  have h: "''hello'' \<notin> {''><END'', ''D><EN'', ''ND><E'', ''END><''}"
    by simp
  have r: "rotator_times True (length ''hello'') ''hello'' = Some ''hello''"
    using rotator_round_trip [OF h] by (rule conjunct1)
  have t: "rotator_plugin_transform True (Some ''hello'') = Some ''ohell''"
    using rotator_round_trip [OF h] by simp
  from h r t show ?thesis by blast
qed

text \<open>
  The round trip fails on a proper rotation of the terminator: the first application
  turns \<open>END><\<close> into \<open><END>\<close>, which every later application returns unchanged.
\<close>

theorem rotator_round_trip_counterexample:
  "rotator_times True (length ''END><'') ''END><'' \<noteq> Some ''END><''"
  by (simp add: rotator_plugin_transform_def is_end_line_def strdup_def)

section \<open>Properties of the queue\<close>

subsection \<open>The ring invariant\<close>

lemma ring_pos_distinct:
  fixes h i j c :: nat
  assumes "i < j" "j < c"
  shows "(h + i) mod c \<noteq> (h + j) mod c"
proof
  assume "(h + i) mod c = (h + j) mod c"
  then have "(h + j) mod c = (h + i) mod c" by simp
  then have "c dvd (h + j) - (h + i)"
    using assms by (simp add: mod_eq_dvd_iff_nat)
  then have "c dvd j - i" by simp
  moreover have "0 < j - i" "j - i < c" using assms by auto
  ultimately show False by (simp add: nat_dvd_not_less)
qed

lemma ring_pos_neq:
  fixes h i n c :: nat
  assumes "i < n" "n < c"
  shows "(h + i) mod c \<noteq> (h + n) mod c"
  using ring_pos_distinct [OF assms] .

lemma cp_window_live_iff:
  assumes "length (items q) = capacity q" "1 \<le> capacity q"
  shows "set (cp_window q) \<subseteq> set (cp_nonempty_slots q)
         \<longleftrightarrow> (\<forall>i<count q. items q ! ((head q + i) mod capacity q) \<noteq> None)"
  using assms by (auto simp: cp_window_def cp_nonempty_slots_def image_subset_iff)

lemma cp_inv_alt:
  "cp_inv q \<longleftrightarrow>
     length (items q) = capacity q \<and> 1 \<le> capacity q \<and> count q \<le> capacity q
     \<and> head q < capacity q \<and> tail q < capacity q
     \<and> tail q = (head q + count q) mod capacity q
     \<and> (\<forall>i<count q. items q ! ((head q + i) mod capacity q) \<noteq> None)"
  unfolding cp_inv_def using cp_window_live_iff [of q] by blast

lemma cp_inv_init:
  assumes "consumer_producer_init env c = Inr q"
  shows "cp_inv q \<and> capacity q = nat c \<and> 1 \<le> c \<and> count q = 0"
proof -
  from assms have c: "1 \<le> c"
    by (auto simp: consumer_producer_init_def split: if_splits)
  from assms have q: "q = \<lparr>items = replicate (nat c) None, capacity = nat c, count = 0,
                head = 0, tail = 0, not_full_monitor = monitor_init,
                not_empty_monitor = monitor_init, finished_monitor = monitor_init\<rparr>"
    by (auto simp: consumer_producer_init_def split: if_splits)
  show ?thesis using c by (simp add: cp_inv_alt q)
qed

lemma put_success:
  assumes "consumer_producer_put env q item = (Returned None, q')"
  shows "\<exists>s. item = Some s \<and> count q \<noteq> capacity q
         \<and> q' = q\<lparr>items := (items q)[tail q := Some s],
               tail := (tail q + 1) mod capacity q,
               count := count q + 1,
               not_empty_monitor := monitor_signal (not_empty_monitor q)\<rparr>"
  using assms
  by (auto simp: consumer_producer_put_def Let_def split: option.splits if_splits)

lemma put_other:
  assumes "consumer_producer_put env q item = (r, q')" "r \<noteq> Returned None"
  shows "q' = q \<or> q' = q\<lparr>not_full_monitor := monitor_reset (not_full_monitor q)\<rparr>
         \<or> (count q \<noteq> capacity q \<and> q' = q\<lparr>items := (items q)[tail q := None]\<rparr>)"
  using assms
  by (auto simp: consumer_producer_put_def Let_def split: option.splits if_splits)

lemma get_success:
  assumes "consumer_producer_get env q = (Returned x, q')" "x \<noteq> None \<or> wait_ok env \<and> lock_found env"
  shows "0 < count q \<and> x = items q ! head q
         \<and> q' = q\<lparr>head := (head q + 1) mod capacity q,
           count := count q - 1,
           not_full_monitor := monitor_signal (not_full_monitor q)\<rparr>"
  using assms
  by (auto simp: consumer_producer_get_def Let_def split: if_splits)

lemma get_cases:
  assumes "consumer_producer_get env q = (r, q')"
  shows "(0 < count q \<and> r = Returned (items q ! head q)
         \<and> q' = q\<lparr>head := (head q + 1) mod capacity q,
           count := count q - 1,
           not_full_monitor := monitor_signal (not_full_monitor q)\<rparr>)
        \<or> ((r = Returned None \<or> r = Blocked) \<and> (q' = q \<or> q' = q\<lparr>not_empty_monitor := monitor_reset (not_empty_monitor q)\<rparr>))"
  using assms
  by (auto simp: consumer_producer_get_def Let_def split: if_splits)

lemma cp_inv_put_commit:
  assumes inv: "cp_inv q" and nf: "count q \<noteq> capacity q"
  shows "cp_inv (q\<lparr>items := (items q)[tail q := Some s],
               tail := (tail q + 1) mod capacity q,
               count := count q + 1,
               not_empty_monitor := m\<rparr>)"
proof -
  let ?c = "capacity q"
  from inv have i: "length (items q) = ?c" "1 \<le> ?c" "count q \<le> ?c" "head q < ?c" "tail q < ?c"
    "tail q = (head q + count q) mod ?c"
    "\<forall>i<count q. items q ! ((head q + i) mod ?c) \<noteq> None"
    by (simp_all add: cp_inv_alt)
  from i nf have lt: "count q < ?c" by simp
  have t: "(tail q + 1) mod ?c = (head q + (count q + 1)) mod ?c"
    using i(6) by (simp add: mod_Suc_eq)
  have live: "(items q)[tail q := Some s] ! ((head q + k) mod ?c) \<noteq> None" if "k < count q + 1" for k
  proof (cases "k = count q")
    case True
    then show ?thesis using i by simp
  next
    case False
    with that have k: "k < count q" by simp
    then have "(head q + k) mod ?c \<noteq> tail q"
      using ring_pos_neq [OF k lt, of "head q"] i(6) by simp
    then show ?thesis using i(7) k by simp
  qed
  show ?thesis
    unfolding cp_inv_alt using i lt t live by simp
qed

lemma cp_inv_put_oom:
  assumes inv: "cp_inv q" and nf: "count q \<noteq> capacity q"
  shows "cp_inv (q\<lparr>items := (items q)[tail q := None]\<rparr>)"
proof -
  let ?c = "capacity q"
  from inv have i: "length (items q) = ?c" "1 \<le> ?c" "count q \<le> ?c" "head q < ?c" "tail q < ?c"
    "tail q = (head q + count q) mod ?c"
    "\<forall>i<count q. items q ! ((head q + i) mod ?c) \<noteq> None"
    by (simp_all add: cp_inv_alt)
  from i nf have lt: "count q < ?c" by simp
  have live: "(items q)[tail q := None] ! ((head q + k) mod ?c) \<noteq> None" if k: "k < count q" for k
  proof -
    have "(head q + k) mod ?c \<noteq> tail q"
      using ring_pos_neq [OF k lt, of "head q"] i(6) by simp
    then show ?thesis using i(7) k by simp
  qed
  show ?thesis
    unfolding cp_inv_alt using i live by simp
qed

lemma cp_inv_get_commit:
  assumes inv: "cp_inv q" and ne: "0 < count q"
  shows "cp_inv (q\<lparr>head := (head q + 1) mod capacity q,
           count := count q - 1,
           not_full_monitor := m\<rparr>)"
proof -
  let ?c = "capacity q"
  from inv have i: "length (items q) = ?c" "1 \<le> ?c" "count q \<le> ?c" "head q < ?c" "tail q < ?c"
    "tail q = (head q + count q) mod ?c"
    "\<forall>i<count q. items q ! ((head q + i) mod ?c) \<noteq> None"
    by (simp_all add: cp_inv_alt)
  have shift: "((head q + 1) mod ?c + k) mod ?c = (head q + (k + 1)) mod ?c" for k
    using mod_add_left_eq [of "head q + 1" ?c k] by (simp add: ac_simps)
  have t: "tail q = ((head q + 1) mod ?c + (count q - 1)) mod ?c"
    using i(6) ne shift [of "count q - 1"] by simp
  have live: "items q ! (((head q + 1) mod ?c + k) mod ?c) \<noteq> None" if "k < count q - 1" for k
  proof -
    from that have "k + 1 < count q" by simp
    with i(7) have a: "items q ! ((head q + (k + 1)) mod ?c) \<noteq> None" by blast
    have "items q ! (((head q + 1) mod ?c + k) mod ?c) = items q ! ((head q + (k + 1)) mod ?c)"
      by (simp only: shift)
    with a show ?thesis by simp
  qed
  show ?thesis
    unfolding cp_inv_alt using i t live by simp
qed

lemma cp_inv_put:
  assumes "cp_inv q"
  shows "cp_inv (snd (consumer_producer_put env q item))"
proof -
  obtain r q' where e: "consumer_producer_put env q item = (r, q')"
    by (cases "consumer_producer_put env q item")
  have "cp_inv q'"
  proof (cases "r = Returned None")
    case True
    with e have "consumer_producer_put env q item = (Returned None, q')" by simp
    from put_success [OF this] obtain s where
      nf: "count q \<noteq> capacity q" and
      q': "q' = q\<lparr>items := (items q)[tail q := Some s],
               tail := (tail q + 1) mod capacity q,
               count := count q + 1,
               not_empty_monitor := monitor_signal (not_empty_monitor q)\<rparr>"
      by blast
    show ?thesis unfolding q' by (rule cp_inv_put_commit [OF assms nf])
  next
    case False
    from put_other [OF e False] show ?thesis
    proof (elim disjE conjE)
      assume "q' = q"
      then show ?thesis using assms by simp
    next
      assume "q' = q\<lparr>not_full_monitor := monitor_reset (not_full_monitor q)\<rparr>"
      then show ?thesis using assms by (simp add: cp_inv_alt)
    next
      assume nf: "count q \<noteq> capacity q" and q': "q' = q\<lparr>items := (items q)[tail q := None]\<rparr>"
      show ?thesis unfolding q' by (rule cp_inv_put_oom [OF assms nf])
    qed
  qed
  then show ?thesis by (simp add: e)
qed

lemma cp_inv_get:
  assumes "cp_inv q"
  shows "cp_inv (snd (consumer_producer_get env q))"
proof -
  obtain r q' where e: "consumer_producer_get env q = (r, q')"
    by (cases "consumer_producer_get env q")
  from get_cases [OF e] have "cp_inv q'"
  proof (elim disjE conjE)
    assume ne: "0 < count q" and q': "q' = q\<lparr>head := (head q + 1) mod capacity q,
           count := count q - 1,
           not_full_monitor := monitor_signal (not_full_monitor q)\<rparr>"
    show ?thesis unfolding q' by (rule cp_inv_get_commit [OF assms ne])
  next
    assume "q' = q"
    then show ?thesis using assms by simp
  next
    assume "q' = q"
    then show ?thesis using assms by simp
  next
    assume "q' = q\<lparr>not_empty_monitor := monitor_reset (not_empty_monitor q)\<rparr>"
    then show ?thesis using assms by (simp add: cp_inv_alt)
  next
    assume "q' = q\<lparr>not_empty_monitor := monitor_reset (not_empty_monitor q)\<rparr>"
    then show ?thesis using assms by (simp add: cp_inv_alt)
  qed
  then show ?thesis by (simp add: e)
qed

subsection \<open>FIFO order\<close>

lemma cp_window_Suc:
  "cp_window (q\<lparr>count := count q + 1\<rparr>) = cp_window q @ [(head q + count q) mod capacity q]"
  by (simp add: cp_window_def)

lemma cp_window_not_tail:
  assumes "cp_inv q" "count q \<noteq> capacity q" "p \<in> set (cp_window q)"
  shows "tail q \<noteq> p"
proof -
  from assms(1) have i: "count q \<le> capacity q" "tail q = (head q + count q) mod capacity q"
    by (simp_all add: cp_inv_alt)
  with assms(2) have lt: "count q < capacity q" by simp
  from assms(3) obtain k where k: "k < count q" "p = (head q + k) mod capacity q"
    by (auto simp: cp_window_def)
  show ?thesis using ring_pos_neq [OF k(1) lt, of "head q"] k(2) i(2) by simp
qed

lemma cp_contents_put_commit:
  assumes inv: "cp_inv q" and nf: "count q \<noteq> capacity q"
  shows "cp_contents (q\<lparr>items := (items q)[tail q := Some s],
               tail := (tail q + 1) mod capacity q,
               count := count q + 1,
               not_empty_monitor := m\<rparr>) = cp_contents q @ [Some s]"
proof -
  from inv have i: "length (items q) = capacity q" "tail q < capacity q"
    "tail q = (head q + count q) mod capacity q"
    by (simp_all add: cp_inv_alt)
  have w: "cp_window (q\<lparr>items := (items q)[tail q := Some s],
               tail := (tail q + 1) mod capacity q,
               count := count q + 1,
               not_empty_monitor := m\<rparr>) = cp_window q @ [tail q]"
    using i(3) by (simp add: cp_window_def)
  have old: "map (\<lambda>p. (items q)[tail q := Some s] ! p) (cp_window q) = map (\<lambda>p. items q ! p) (cp_window q)"
    using cp_window_not_tail [OF inv nf] by (intro map_cong) auto
  show ?thesis
    unfolding cp_contents_def w using old i by simp
qed

lemma cp_contents_put_oom:
  assumes inv: "cp_inv q" and nf: "count q \<noteq> capacity q"
  shows "cp_contents (q\<lparr>items := (items q)[tail q := None]\<rparr>) = cp_contents q"
proof -
  have w: "cp_window (q\<lparr>items := (items q)[tail q := None]\<rparr>) = cp_window q"
    by (simp add: cp_window_def)
  have old: "map (\<lambda>p. (items q)[tail q := None] ! p) (cp_window q) = map (\<lambda>p. items q ! p) (cp_window q)"
    using cp_window_not_tail [OF inv nf] by (intro map_cong) auto
  show ?thesis
    unfolding cp_contents_def w using old by simp
qed

lemma cp_contents_get_commit:
  assumes inv: "cp_inv q" and ne: "0 < count q"
  shows "cp_contents q = items q ! head q # cp_contents (q\<lparr>head := (head q + 1) mod capacity q,
           count := count q - 1,
           not_full_monitor := m\<rparr>)"
proof -
  let ?c = "capacity q"
  from inv have i: "head q < ?c" by (simp add: cp_inv_alt)
  have shift: "((head q + 1) mod ?c + k) mod ?c = (head q + Suc k) mod ?c" for k
    using mod_add_left_eq [of "head q + 1" ?c k] by (simp add: ac_simps)
  from ne obtain n where n: "count q = Suc n" by (cases "count q") auto
  have "[0..<Suc n] = 0 # map Suc [0..<n]"
    by (simp add: upt_conv_Cons map_Suc_upt del: upt_Suc)
  then have "cp_window q = head q # map (\<lambda>k. (head q + Suc k) mod ?c) [0..<n]"
    using i by (simp add: cp_window_def n comp_def del: upt_Suc)
  moreover have "cp_window (q\<lparr>head := (head q + 1) mod capacity q,
           count := count q - 1, not_full_monitor := m\<rparr>) = map (\<lambda>k. (head q + Suc k) mod ?c) [0..<n]"
    unfolding cp_window_def using shift by (simp add: n)
  ultimately show ?thesis
    by (simp add: cp_contents_def)
qed

lemma cp_contents_monitors [simp]:
  "cp_contents (q\<lparr>not_full_monitor := m\<rparr>) = cp_contents q"
  "cp_contents (q\<lparr>not_empty_monitor := m\<rparr>) = cp_contents q"
  by (simp_all add: cp_contents_def cp_window_def)

lemma cp_fifo_inv_step:
  assumes "cp_fifo_inv r"
  shows "cp_fifo_inv (cp_step r op)"
proof (cases op)
  case (Put env item)
  from assms have inv: "cp_inv (cp_state r)"
    and log: "map Some (put_log r) = map Some (get_log r) @ cp_contents (cp_state r)"
    by (simp_all add: cp_fifo_inv_def)
  obtain res q' where e: "consumer_producer_put env (cp_state r) item = (res, q')"
    by (cases "consumer_producer_put env (cp_state r) item")
  have inv': "cp_inv q'"
    using cp_inv_put [OF inv, of env item] e by simp
  show ?thesis
  proof (cases "res = Returned None")
    case True
    with e have e': "consumer_producer_put env (cp_state r) item = (Returned None, q')" by simp
    from put_success [OF e'] obtain s where
      s: "item = Some s" and nf: "count (cp_state r) \<noteq> capacity (cp_state r)" and
      q': "q' = (cp_state r)\<lparr>items := (items (cp_state r))[tail (cp_state r) := Some s],
               tail := (tail (cp_state r) + 1) mod capacity (cp_state r),
               count := count (cp_state r) + 1,
               not_empty_monitor := monitor_signal (not_empty_monitor (cp_state r))\<rparr>"
      by blast
    have c: "cp_contents q' = cp_contents (cp_state r) @ [Some s]"
      unfolding q' by (rule cp_contents_put_commit [OF inv nf])
    have st: "cp_step r op = r\<lparr>put_log := put_log r @ [s], cp_state := q'\<rparr>"
      using e' unfolding Put s by simp
    show ?thesis
      unfolding st cp_fifo_inv_def using inv' log c by simp
  next
    case False
    have st: "cp_step r op = r\<lparr>cp_state := q'\<rparr>"
      using False by (simp add: Put e split: blocking.splits option.splits)
    have c: "cp_contents q' = cp_contents (cp_state r)"
      using put_other [OF e False] cp_contents_put_oom [OF inv] by auto
    show ?thesis
      unfolding st cp_fifo_inv_def using inv' log c by simp
  qed
next
  case (Get env)
  from assms have inv: "cp_inv (cp_state r)"
    and log: "map Some (put_log r) = map Some (get_log r) @ cp_contents (cp_state r)"
    by (simp_all add: cp_fifo_inv_def)
  obtain res q' where e: "consumer_producer_get env (cp_state r) = (res, q')"
    by (cases "consumer_producer_get env (cp_state r)")
  have inv': "cp_inv q'"
    using cp_inv_get [OF inv, of env] e by simp
  from get_cases [OF e] show ?thesis
  proof (elim disjE conjE)
    assume ne: "0 < count (cp_state r)"
      and res: "res = Returned (items (cp_state r) ! head (cp_state r))"
      and q': "q' = (cp_state r)\<lparr>head := (head (cp_state r) + 1) mod capacity (cp_state r),
           count := count (cp_state r) - 1,
           not_full_monitor := monitor_signal (not_full_monitor (cp_state r))\<rparr>"
    have c: "cp_contents (cp_state r) = items (cp_state r) ! head (cp_state r) # cp_contents q'"
      unfolding q' by (rule cp_contents_get_commit [OF inv ne])
    from inv ne have "items (cp_state r) ! ((head (cp_state r) + 0) mod capacity (cp_state r)) \<noteq> None"
      unfolding cp_inv_alt by blast
    moreover from inv have "head (cp_state r) < capacity (cp_state r)" by (simp add: cp_inv_alt)
    ultimately obtain s where s: "items (cp_state r) ! head (cp_state r) = Some s"
      by auto
    have st: "cp_step r op = r\<lparr>get_log := get_log r @ [s], cp_state := q'\<rparr>"
      by (simp add: Get e res s)
    show ?thesis
      unfolding st cp_fifo_inv_def using inv' log c s by simp
  next
    assume "res = Returned None" "q' = cp_state r"
    then show ?thesis using assms by (simp add: Get e cp_fifo_inv_def)
  next
    assume "res = Blocked" "q' = cp_state r"
    then show ?thesis using assms by (simp add: Get e cp_fifo_inv_def)
  next
    assume "res = Returned None" "q' = (cp_state r)\<lparr>not_empty_monitor := monitor_reset (not_empty_monitor (cp_state r))\<rparr>"
    then show ?thesis using assms inv' by (simp add: Get e cp_fifo_inv_def)
  next
    assume "res = Blocked" "q' = (cp_state r)\<lparr>not_empty_monitor := monitor_reset (not_empty_monitor (cp_state r))\<rparr>"
    then show ?thesis using assms inv' by (simp add: Get e cp_fifo_inv_def)
  qed
qed

lemma cp_fifo_inv_foldl:
  "cp_fifo_inv r \<Longrightarrow> cp_fifo_inv (foldl cp_step r ops)"
  by (induction ops arbitrary: r) (simp_all add: cp_fifo_inv_step)

lemma cp_fifo_inv_run:
  assumes "consumer_producer_init env c = Inr q0"
  shows "cp_fifo_inv (cp_run_ops q0 ops)"
proof -
  from cp_inv_init [OF assms] have "cp_inv q0" "count q0 = 0" by simp_all
  then have "cp_fifo_inv \<lparr>put_log = [], get_log = [], cp_state = q0\<rparr>"
    by (simp add: cp_fifo_inv_def cp_contents_def cp_window_def)
  then show ?thesis
    unfolding cp_run_ops_def by (rule cp_fifo_inv_foldl)
qed

lemma init_ok_env:
  "1 \<le> c \<Longrightarrow> consumer_producer_init ok_init_env c = Inr (empty_queue (nat c))"
  by (simp add: consumer_producer_init_def ok_init_env_def empty_queue_def)

text \<open>
  C4. For a queue initialised by \<open>consumer_producer_init\<close> and every sequence of put and
  get operations on it, the \<open>i\<close>-th successful get returns the string of the \<open>i\<close>-th
  successful put (and there are never more successful gets than successful puts).
\<close>

theorem channel_fifo:
  assumes "consumer_producer_init env c = Inr q0"
  shows "length (get_log (cp_run_ops q0 ops)) \<le> length (put_log (cp_run_ops q0 ops))
         \<and> (\<forall>i<length (get_log (cp_run_ops q0 ops)).
               get_log (cp_run_ops q0 ops) ! i = put_log (cp_run_ops q0 ops) ! i)"
proof -
  let ?r = "cp_run_ops q0 ops"
  from cp_fifo_inv_run [OF assms] have
    e: "map Some (put_log ?r) = map Some (get_log ?r) @ cp_contents (cp_state ?r)"
    by (simp add: cp_fifo_inv_def)
  then have "length (map Some (put_log ?r)) = length (map Some (get_log ?r) @ cp_contents (cp_state ?r))"
    by simp
  then have len: "length (get_log ?r) \<le> length (put_log ?r)" by simp
  have "get_log ?r ! i = put_log ?r ! i" if "i < length (get_log ?r)" for i
  proof -
    have "map Some (put_log ?r) ! i = (map Some (get_log ?r) @ cp_contents (cp_state ?r)) ! i"
      using e by simp
    then show ?thesis using that len by (simp add: nth_append)
  qed
  with len show ?thesis by blast
qed

theorem channel_fifo_witness:
  "consumer_producer_init ok_init_env 2 = Inr (empty_queue 2)
   \<and> length (get_log (cp_run_ops (empty_queue 2) fifo_ops)) = 3
   \<and> length (get_log (cp_run_ops (empty_queue 2) fifo_ops))
        \<le> length (put_log (cp_run_ops (empty_queue 2) fifo_ops))
   \<and> get_log (cp_run_ops (empty_queue 2) fifo_ops) ! 0
        = put_log (cp_run_ops (empty_queue 2) fifo_ops) ! 0
   \<and> get_log (cp_run_ops (empty_queue 2) fifo_ops) ! 1
        = put_log (cp_run_ops (empty_queue 2) fifo_ops) ! 1
   \<and> get_log (cp_run_ops (empty_queue 2) fifo_ops) ! 2
        = put_log (cp_run_ops (empty_queue 2) fifo_ops) ! 2"
proof -
  have h: "consumer_producer_init ok_init_env 2 = Inr (empty_queue 2)"
    using init_ok_env [of 2] by simp
  have g: "length (get_log (cp_run_ops (empty_queue 2) fifo_ops)) = 3"
    by (simp add: fifo_ops_def cp_run_ops_def empty_queue_def ok_cp_env_def
        consumer_producer_put_def consumer_producer_get_def monitor_init_def
        monitor_signal_def monitor_reset_def)
  note t = channel_fifo [OF h, of fifo_ops]
  from t g have 0: "get_log (cp_run_ops (empty_queue 2) fifo_ops) ! 0
        = put_log (cp_run_ops (empty_queue 2) fifo_ops) ! 0" by simp
  from t g have 1: "get_log (cp_run_ops (empty_queue 2) fifo_ops) ! 1
        = put_log (cp_run_ops (empty_queue 2) fifo_ops) ! 1" by simp
  from t g have 2: "get_log (cp_run_ops (empty_queue 2) fifo_ops) ! 2
        = put_log (cp_run_ops (empty_queue 2) fifo_ops) ! 2" by simp
  from t have l: "length (get_log (cp_run_ops (empty_queue 2) fifo_ops))
        \<le> length (put_log (cp_run_ops (empty_queue 2) fifo_ops))" by simp
  from h g l 0 1 2 show ?thesis by blast
qed

subsection \<open>The invariant along every run\<close>

lemma capacity_put: "capacity (snd (consumer_producer_put env q item)) = capacity q"
  by (simp add: consumer_producer_put_def Let_def split: option.splits)

lemma capacity_get: "capacity (snd (consumer_producer_get env q)) = capacity q"
  by (simp add: consumer_producer_get_def Let_def)

lemma capacity_step: "capacity (cp_state (cp_step r op)) = capacity (cp_state r)"
proof (cases op)
  case (Put env item)
  obtain res q' where e: "consumer_producer_put env (cp_state r) item = (res, q')"
    by (cases "consumer_producer_put env (cp_state r) item")
  with capacity_put [of env "cp_state r" item] have "capacity q' = capacity (cp_state r)" by simp
  then show ?thesis by (simp add: Put e split: blocking.splits option.splits)
next
  case (Get env)
  obtain res q' where e: "consumer_producer_get env (cp_state r) = (res, q')"
    by (cases "consumer_producer_get env (cp_state r)")
  with capacity_get [of env "cp_state r"] have "capacity q' = capacity (cp_state r)" by simp
  then show ?thesis by (simp add: Get e split: blocking.splits option.splits)
qed

lemma capacity_foldl: "capacity (cp_state (foldl cp_step r ops)) = capacity (cp_state r)"
  by (induction ops arbitrary: r) (simp_all add: capacity_step)

text \<open>
  C5 (as amended). For every queue initialised with capacity \<open>c \<ge> 1\<close> and every sequence of
  put and get operations: \<open>0 \<le> count \<le> c\<close>, \<open>head\<close> and \<open>tail\<close> stay in \<open>[0, c)\<close>,
  \<open>tail = (head + count) mod c\<close>, the capacity stays \<open>c\<close>, and every position of
  \<open>[head, head+count) mod c\<close> holds a non-NULL slot. Every put and every get preserves this
  invariant. (Positions outside that range may still hold the pointer of a string that a
  get has handed to its caller: get does not clear the slot.)
\<close>

theorem channel_invariant:
  "(consumer_producer_init env c = Inr q0 \<longrightarrow>
      1 \<le> c \<and> cp_inv q0 \<and> capacity q0 = nat c
      \<and> cp_inv (cp_state (cp_run_ops q0 ops))
      \<and> capacity (cp_state (cp_run_ops q0 ops)) = nat c)
   \<and> (cp_inv q \<longrightarrow> cp_inv (snd (consumer_producer_put e q item))
                    \<and> cp_inv (snd (consumer_producer_get e q)))"
proof (intro conjI impI)
  assume i: "consumer_producer_init env c = Inr q0"
  from cp_inv_init [OF i] show "1 \<le> c" "cp_inv q0" "capacity q0 = nat c" by simp_all
  from cp_fifo_inv_run [OF i] show "cp_inv (cp_state (cp_run_ops q0 ops))"
    by (simp add: cp_fifo_inv_def)
  show "capacity (cp_state (cp_run_ops q0 ops)) = nat c"
    using cp_inv_init [OF i] by (simp add: cp_run_ops_def capacity_foldl)
next
  assume "cp_inv q"
  then show "cp_inv (snd (consumer_producer_put e q item))" by (rule cp_inv_put)
next
  assume "cp_inv q"
  then show "cp_inv (snd (consumer_producer_get e q))" by (rule cp_inv_get)
qed

theorem channel_invariant_witness:
  "consumer_producer_init ok_init_env 2 = Inr (empty_queue 2)
   \<and> cp_inv (empty_queue 2)
   \<and> cp_inv (cp_state (cp_run_ops (empty_queue 2)
        [Put ok_cp_env (Some ''a''), Put ok_cp_env (Some ''b''), Get ok_cp_env]))
   \<and> capacity (cp_state (cp_run_ops (empty_queue 2)
        [Put ok_cp_env (Some ''a''), Put ok_cp_env (Some ''b''), Get ok_cp_env])) = 2
   \<and> cp_inv (snd (consumer_producer_put ok_cp_env (empty_queue 2) (Some ''a'')))
   \<and> cp_inv (snd (consumer_producer_get ok_cp_env (empty_queue 2)))"
proof -
  have h: "consumer_producer_init ok_init_env 2 = Inr (empty_queue 2)"
    using init_ok_env [of 2] by simp
  note t = channel_invariant [of ok_init_env 2 "empty_queue 2"
        "[Put ok_cp_env (Some ''a''), Put ok_cp_env (Some ''b''), Get ok_cp_env]"
        "empty_queue 2" ok_cp_env "Some ''a''"]
  from t h have a: "cp_inv (empty_queue 2)" by blast
  from t h a show ?thesis by simp
qed

text \<open>
  The non-NULL slots are not exactly the positions \<open>[head, head+count) mod c\<close>: after one
  put and one get on a queue of capacity 1 the window is empty and slot 0 is still
  non-NULL.
\<close>

theorem channel_live_slots_counterexample:
  "consumer_producer_init ok_init_env 1 = Inr (empty_queue 1)
   \<and> cp_nonempty_slots (cp_state (cp_run_ops (empty_queue 1)
        [Put ok_cp_env (Some ''a''), Get ok_cp_env])) = [0]
   \<and> cp_window (cp_state (cp_run_ops (empty_queue 1)
        [Put ok_cp_env (Some ''a''), Get ok_cp_env])) = []"
  by (simp add: consumer_producer_init_def ok_init_env_def cp_nonempty_slots_def cp_window_def
        cp_run_ops_def empty_queue_def ok_cp_env_def consumer_producer_put_def
        consumer_producer_get_def monitor_init_def monitor_signal_def monitor_reset_def)

section \<open>Properties of the stage\<close>

subsection \<open>Initialising twice\<close>

text \<open>
  C10. Calling \<^verbatim>\<open>plugin_init\<close> (through \<^verbatim>\<open>common_plugin_init\<close>) while the module is
  already initialised returns the error string \<open>plugin already initialized\<close> and leaves
  the whole context unchanged: queue, worker thread, transform pointer and attachment.
\<close>

theorem init_twice_rejected:
  "initialized ctx \<Longrightarrow>
     common_plugin_init env ctx process_fn nm qsize = (Some ''plugin already initialized'', ctx)"
  by (simp add: common_plugin_init_def)

theorem init_twice_rejected_witness:
  "initialized running_ctx
   \<and> common_plugin_init ok_plugin_env running_ctx (Some (uppercaser_plugin_transform True))
        (Some ''uppercaser'') 8 = (Some ''plugin already initialized'', running_ctx)"
proof -
  have h: "initialized running_ctx" by (simp add: running_ctx_def)
  from h init_twice_rejected [OF h] show ?thesis by blast
qed

subsection \<open>The worker and the finished gate\<close>

lemma forward_events_no_signal: "SignalFinished \<notin> set (forward_events nxt s)"
  by (auto simp: forward_events_def split: option.splits)

lemma consumer_loop_no_signal:
  "SignalFinished \<notin> set (fst (consumer_loop ctx f gets))"
  by (induction ctx f gets rule: consumer_loop.induct)
     (auto simp: forward_end_if_attached_def forward_events_no_signal Let_def split: option.splits)

lemma consumer_loop_exit:
  "snd (consumer_loop ctx f gets) \<longleftrightarrow> loop_exit gets \<noteq> None"
  by (induction ctx f gets rule: consumer_loop.induct)
     (auto simp: loop_exit_def Let_def split: option.splits)

text \<open>
  C3 (as amended). A worker started with a queue and a transform signals its queue's
  finished gate exactly once, as its last action, when it leaves its loop; it leaves the
  loop only after \<^verbatim>\<open>get\<close> has returned the terminator \<open><END>\<close> or has failed (returned
  NULL). A worker that has seen neither is still waiting in \<^verbatim>\<open>get\<close> and has not
  signalled.
\<close>

theorem worker_signals_finished:
  assumes "queue ctx = Some q" and "process_function ctx = Some f"
  shows "(loop_exit gets = None \<longrightarrow>
            snd (plugin_consumer_thread ctx gets) = Blocked
            \<and> SignalFinished \<notin> set (fst (plugin_consumer_thread ctx gets)))
         \<and> (loop_exit gets \<noteq> None \<longrightarrow>
            count_list (fst (plugin_consumer_thread ctx gets)) SignalFinished = 1
            \<and> last (fst (plugin_consumer_thread ctx gets)) = SignalFinished
            \<and> snd (plugin_consumer_thread ctx gets) =
                Returned (ctx\<lparr>finished := True,
                              queue := Some (consumer_producer_signal_finished q)\<rparr>))"
proof (intro conjI impI)
  assume n: "loop_exit gets = None"
  then have s: "\<not> snd (consumer_loop ctx f gets)" by (simp add: consumer_loop_exit)
  show "snd (plugin_consumer_thread ctx gets) = Blocked"
    using assms s by (simp add: plugin_consumer_thread_def Let_def)
  show "SignalFinished \<notin> set (fst (plugin_consumer_thread ctx gets))"
    using assms s consumer_loop_no_signal [of ctx f gets]
    by (simp add: plugin_consumer_thread_def Let_def)
next
  assume n: "loop_exit gets \<noteq> None"
  then have s: "snd (consumer_loop ctx f gets)" by (simp add: consumer_loop_exit)
  have e: "fst (plugin_consumer_thread ctx gets) = fst (consumer_loop ctx f gets) @ [SignalFinished]"
    using assms s by (simp add: plugin_consumer_thread_def Let_def)
  have "count_list (fst (consumer_loop ctx f gets)) SignalFinished = 0"
    using consumer_loop_no_signal [of ctx f gets] by (simp add: count_list_0_iff)
  then show "count_list (fst (plugin_consumer_thread ctx gets)) SignalFinished = 1"
    by (simp add: e)
  show "last (fst (plugin_consumer_thread ctx gets)) = SignalFinished"
    by (simp add: e)
  show "snd (plugin_consumer_thread ctx gets) =
                Returned (ctx\<lparr>finished := True,
                              queue := Some (consumer_producer_signal_finished q)\<rparr>)"
    using assms s by (simp add: plugin_consumer_thread_def Let_def)
qed

theorem worker_signals_finished_witness:
  "queue running_ctx = Some (empty_queue 4)
   \<and> process_function running_ctx = Some (rotator_plugin_transform True)
   \<and> loop_exit [Some ''abc'', Some ''<END>''] \<noteq> None
   \<and> loop_exit [Some ''abc''] = None
   \<and> snd (plugin_consumer_thread running_ctx [Some ''abc'']) = Blocked
   \<and> SignalFinished \<notin> set (fst (plugin_consumer_thread running_ctx [Some ''abc'']))
   \<and> count_list (fst (plugin_consumer_thread running_ctx [Some ''abc'', Some ''<END>''])) SignalFinished = 1
   \<and> last (fst (plugin_consumer_thread running_ctx [Some ''abc'', Some ''<END>''])) = SignalFinished"
proof -
  have q: "queue running_ctx = Some (empty_queue 4)"
    and f: "process_function running_ctx = Some (rotator_plugin_transform True)"
    by (simp_all add: running_ctx_def)
  have x: "loop_exit [Some ''abc'', Some ''<END>''] \<noteq> None"
    and b: "loop_exit [Some ''abc''] = None"
    by (simp_all add: loop_exit_def)
  from worker_signals_finished [OF q f, of "[Some ''abc'']"] b
  have 1: "snd (plugin_consumer_thread running_ctx [Some ''abc'']) = Blocked
     \<and> SignalFinished \<notin> set (fst (plugin_consumer_thread running_ctx [Some ''abc'']))"
    by blast
  from worker_signals_finished [OF q f, of "[Some ''abc'', Some ''<END>'']"] x
  have 2: "count_list (fst (plugin_consumer_thread running_ctx [Some ''abc'', Some ''<END>''])) SignalFinished = 1
   \<and> last (fst (plugin_consumer_thread running_ctx [Some ''abc'', Some ''<END>''])) = SignalFinished"
    by blast
  from q f x b 1 2 show ?thesis by blast
qed

text \<open>
  The gate is also signalled when the terminator was never observed: a failing \<^verbatim>\<open>get\<close>
  ends the loop, and the signal follows.
\<close>

theorem worker_signal_without_terminator_counterexample:
  "fst (plugin_consumer_thread running_ctx [Some ''abc'', None])
     = [LogError ''get() failed'', SignalFinished]
   \<and> Some ''<END>'' \<notin> set [Some ''abc'', None]"
  by (simp add: plugin_consumer_thread_def running_ctx_def Let_def forward_events_def
      rotator_plugin_transform_def is_end_line_def strdup_def)

section \<open>Properties of the driver\<close>

subsection \<open>Shutdown\<close>

lemma print_error_no_usage:
  "print_error_and_exit g code False None msg = ([Stderr (msg @ [newline])], Exits code)"
  by (cases g) (simp_all add: print_error_and_exit_def)

lemma teardown_wait_fails:
  assumes "i \<le> k" "k < length p" "\<forall>j. i \<le> j \<and> j < k \<longrightarrow> wait_ok_at p j" "wait_fails_at p k werr"
  shows "teardown_wait g p i = (map CallWaitFinished [i..<Suc k] @ [wait_error_line p k werr], Exits 1)"
  using assms
proof (induction "k - i" arbitrary: i)
  case 0
  then have i: "i = k" by simp
  from 0 obtain f where "wait_finished (p ! k) = Some f" "f () = Some werr"
    by (auto simp: wait_fails_at_def split: option.splits)
  then show ?case
    using 0 i
    by (simp add: teardown_wait.simps [of g p k] print_error_no_usage wait_error_line_def)
next
  case (Suc d)
  then have lt: "i < k" by simp
  with Suc.prems have "wait_ok_at p i" by simp
  then obtain f where f: "wait_finished (p ! i) = Some f" "f () = None"
    by (auto simp: wait_ok_at_def split: option.splits)
  have ih: "teardown_wait g p (i + 1) = (map CallWaitFinished [i + 1..<Suc k] @ [wait_error_line p k werr], Exits 1)"
    using Suc.hyps(2) Suc.prems lt by (intro Suc.hyps(1)) auto
  have "[i..<Suc k] = i # [i + 1..<Suc k]"
    using lt by (simp add: upt_conv_Cons del: upt_Suc)
  then show ?case
    using f lt Suc.prems(2) ih
    by (simp add: teardown_wait.simps [of g p i] del: upt_Suc)
qed

lemma teardown_wait_ok:
  assumes "\<forall>j. i \<le> j \<and> j < length p \<longrightarrow> wait_ok_at p j"
  shows "teardown_wait g p i = (map CallWaitFinished [i..<length p], Returns)"
  using assms
proof (induction "length p - i" arbitrary: i)
  case 0
  then show ?case by (simp add: teardown_wait.simps [of g p i])
next
  case (Suc d)
  then have lt: "i < length p" by simp
  with Suc.prems have "wait_ok_at p i" by simp
  then obtain f where f: "wait_finished (p ! i) = Some f" "f () = None"
    by (auto simp: wait_ok_at_def split: option.splits)
  have ih: "teardown_wait g p (i + 1) = (map CallWaitFinished [i + 1..<length p], Returns)"
    using Suc.hyps(2) Suc.prems by (intro Suc.hyps(1)) auto
  have "[i..<length p] = i # [i + 1..<length p]"
    using lt by (simp add: upt_conv_Cons)
  then show ?case
    using f lt ih by (simp add: teardown_wait.simps [of g p i])
qed

lemma teardown_fini_fails:
  assumes "k < n" "\<forall>j. k < j \<and> j < n \<longrightarrow> fini_ok_at p j" "fini_fails_at p k ferr"
  shows "teardown_fini g p n =
           (concat (map (\<lambda>j. CallFini j # close_stage p j) (rev [Suc k..<n]))
            @ [CallFini k, fini_error_line p k ferr], Exits 1)"
  using assms
proof (induction n)
  case 0
  then show ?case by simp
next
  case (Suc n)
  show ?case
  proof (cases "k = n")
    case True
    from Suc.prems obtain f where "fini (p ! k) = Some f" "f () = Returned (Some ferr)"
      by (auto simp: fini_fails_at_def split: option.splits)
    then show ?thesis
      using True by (simp add: print_error_no_usage fini_error_line_def)
  next
    case False
    with Suc.prems have lt: "k < n" by simp
    with Suc.prems have "fini_ok_at p n" by simp
    then obtain f where f: "fini (p ! n) = Some f" "f () = Returned None"
      by (auto simp: fini_ok_at_def split: option.splits)
    have ih: "teardown_fini g p n =
           (concat (map (\<lambda>j. CallFini j # close_stage p j) (rev [Suc k..<n]))
            @ [CallFini k, fini_error_line p k ferr], Exits 1)"
      using Suc.prems lt by (intro Suc.IH) auto
    show ?thesis
      using f lt ih by simp
  qed
qed

text \<open>
  C1 (as amended). During shutdown the driver stops at the first error string. If stage
  \<open>k\<close> is the first whose \<^verbatim>\<open>wait_finished()\<close> returns one, the driver has called
  \<^verbatim>\<open>wait_finished()\<close> on stages \<open>0..k\<close> only, writes the error to stderr and the
  process exits with code 1: no later stage is waited for and no \<^verbatim>\<open>fini()\<close> is called.
  If every wait succeeds and stage \<open>k\<close> is the first, in reverse order, whose
  \<^verbatim>\<open>fini()\<close> returns an error string, the driver has finalised and closed stages
  \<open>n-1..k+1\<close> only, writes the error and the process exits with code 1: stages
  \<open>k-1..0\<close> are not finalised and no further handle is closed.
\<close>

theorem teardown_stops_at_first_error:
  "(k < length p \<and> (\<forall>j<k. wait_ok_at p j) \<and> wait_fails_at p k werr \<longrightarrow>
      teardown g p =
        (map CallWaitFinished [0..<Suc k]
         @ [Stderr (''plugin_wait_finished('' @ name_or ''(null)'' (p ! k)
                    @ '') error: '' @ werr @ [newline])],
         Exits 1))
   \<and> (k < length p \<and> (\<forall>j<length p. wait_ok_at p j)
        \<and> (\<forall>j. k < j \<and> j < length p \<longrightarrow> fini_ok_at p j) \<and> fini_fails_at p k ferr \<longrightarrow>
      teardown g p =
        (map CallWaitFinished [0..<length p]
         @ concat (map (\<lambda>j. CallFini j # close_stage p j) (rev [Suc k..<length p]))
         @ [CallFini k,
            Stderr (''plugin_fini('' @ name_or ''(null)'' (p ! k)
                    @ '') error: '' @ ferr @ [newline])],
         Exits 1))"
proof (intro conjI impI)
  assume a: "k < length p \<and> (\<forall>j<k. wait_ok_at p j) \<and> wait_fails_at p k werr"
  then have "teardown_wait g p 0 = (map CallWaitFinished [0..<Suc k] @ [wait_error_line p k werr], Exits 1)"
    by (intro teardown_wait_fails) auto
  then show "teardown g p =
        (map CallWaitFinished [0..<Suc k]
         @ [Stderr (''plugin_wait_finished('' @ name_or ''(null)'' (p ! k)
                    @ '') error: '' @ werr @ [newline])],
         Exits 1)"
    by (simp add: teardown_def wait_error_line_def del: upt_Suc)
next
  assume a: "k < length p \<and> (\<forall>j<length p. wait_ok_at p j)
        \<and> (\<forall>j. k < j \<and> j < length p \<longrightarrow> fini_ok_at p j) \<and> fini_fails_at p k ferr"
  then have w: "teardown_wait g p 0 = (map CallWaitFinished [0..<length p], Returns)"
    by (intro teardown_wait_ok) auto
  from a have f: "teardown_fini g p (length p) =
           (concat (map (\<lambda>j. CallFini j # close_stage p j) (rev [Suc k..<length p]))
            @ [CallFini k, fini_error_line p k ferr], Exits 1)"
    by (intro teardown_fini_fails) auto
  show "teardown g p =
        (map CallWaitFinished [0..<length p]
         @ concat (map (\<lambda>j. CallFini j # close_stage p j) (rev [Suc k..<length p]))
         @ [CallFini k,
            Stderr (''plugin_fini('' @ name_or ''(null)'' (p ! k)
                    @ '') error: '' @ ferr @ [newline])],
         Exits 1)"
    using w f by (simp add: teardown_def fini_error_line_def)
qed

theorem teardown_stops_at_first_error_witness:
  "wait_fails_at [good_stage, bad_wait_stage, good_stage] 1 ''wait_finished failed''
   \<and> teardown (Some ''analyzer'') [good_stage, bad_wait_stage, good_stage] =
        ([CallWaitFinished 0, CallWaitFinished 1,
          Stderr (''plugin_wait_finished(flipper) error: wait_finished failed'' @ [newline])],
         Exits 1)
   \<and> fini_fails_at [good_stage, bad_fini_stage, good_stage] 1 ''pthread_join failed in plugin_fini''
   \<and> teardown (Some ''analyzer'') [good_stage, bad_fini_stage, good_stage] =
        ([CallWaitFinished 0, CallWaitFinished 1, CallWaitFinished 2,
          CallFini 2, Dlclose 2, FreeName 2, CallFini 1,
          Stderr (''plugin_fini(expander) error: pthread_join failed in plugin_fini'' @ [newline])],
         Exits 1)"
proof -
  let ?p = "[good_stage, bad_wait_stage, good_stage]"
  let ?q = "[good_stage, bad_fini_stage, good_stage]"
  have w: "(1::nat) < length ?p \<and> (\<forall>j<1. wait_ok_at ?p j)
           \<and> wait_fails_at ?p 1 ''wait_finished failed''"
    by (simp add: wait_ok_at_def wait_fails_at_def good_stage_def bad_wait_stage_def)
  have f: "(1::nat) < length ?q \<and> (\<forall>j<length ?q. wait_ok_at ?q j)
           \<and> (\<forall>j. 1 < j \<and> j < length ?q \<longrightarrow> fini_ok_at ?q j)
           \<and> fini_fails_at ?q 1 ''pthread_join failed in plugin_fini''"
    by (auto simp: wait_ok_at_def fini_ok_at_def fini_fails_at_def good_stage_def
          bad_fini_stage_def less_Suc_eq)
  from teardown_stops_at_first_error [of 1 ?p "''wait_finished failed''" "Some ''analyzer''"] w
  have 1: "teardown (Some ''analyzer'') ?p =
        ([CallWaitFinished 0, CallWaitFinished 1,
          Stderr (''plugin_wait_finished(flipper) error: wait_finished failed'' @ [newline])],
         Exits 1)"
    by (simp add: name_or_def bad_wait_stage_def)
  from teardown_stops_at_first_error [of 1 ?q _ "Some ''analyzer''"
      "''pthread_join failed in plugin_fini''"] f
  have 2: "teardown (Some ''analyzer'') ?q =
        ([CallWaitFinished 0, CallWaitFinished 1, CallWaitFinished 2,
          CallFini 2, Dlclose 2, FreeName 2, CallFini 1,
          Stderr (''plugin_fini(expander) error: pthread_join failed in plugin_fini'' @ [newline])],
         Exits 1)"
    by (simp add: name_or_def bad_fini_stage_def good_stage_def close_stage_def upt_rec numeral_2_eq_2 numeral_3_eq_3)
  from w f 1 2 show ?thesis by blast
qed

text \<open>
  No best-effort draining: when the first of two stages fails its wait, the second stage
  is neither waited for nor finalised, and the first is not finalised either.
\<close>

theorem teardown_no_draining_counterexample:
  "teardown (Some ''analyzer'') [bad_wait_stage, good_stage] =
     ([CallWaitFinished 0,
       Stderr (''plugin_wait_finished(flipper) error: wait_finished failed'' @ [newline])],
      Exits 1)
   \<and> CallWaitFinished 1 \<notin> set (fst (teardown (Some ''analyzer'') [bad_wait_stage, good_stage]))
   \<and> CallFini 0 \<notin> set (fst (teardown (Some ''analyzer'') [bad_wait_stage, good_stage]))
   \<and> CallFini 1 \<notin> set (fst (teardown (Some ''analyzer'') [bad_wait_stage, good_stage]))"
proof -
  have "teardown (Some ''analyzer'') [bad_wait_stage, good_stage] =
     ([CallWaitFinished 0,
       Stderr (''plugin_wait_finished(flipper) error: wait_finished failed'' @ [newline])],
      Exits 1)"
    by (simp add: teardown_def teardown_wait.simps [of _ _ 0] bad_wait_stage_def
        print_error_and_exit_def name_or_def)
  then show ?thesis by simp
qed

subsection \<open>Initialisation and rollback\<close>

lemma init_failed_outcome:
  "snd (init_failed g p k err) =
     (if \<not> snd (rollback_down p k) then Hangs
      else if handle (p ! k) = None then Exits 2 else Crashes)"
  by (simp add: init_failed_def Let_def print_error_no_usage split: option.splits)

lemma init_loop_fails:
  assumes "i \<le> k" "k < length p" "\<forall>j. i \<le> j \<and> j < k \<longrightarrow> init_ok_at p qsize j"
    "init_fails_at p qsize k err"
  shows "init_loop g p qsize i =
           (map (\<lambda>j. CallInit j qsize) [i..<Suc k] @ fst (init_failed g p k err),
            snd (init_failed g p k err))"
  using assms
proof (induction "k - i" arbitrary: i)
  case 0
  then have i: "i = k" by simp
  from 0 obtain f where "init (p ! k) = Some f" "f qsize = Some err"
    by (auto simp: init_fails_at_def split: option.splits)
  then show ?case
    using 0 i
    by (simp add: init_loop.simps [of g p qsize k] Let_def)
next
  case (Suc d)
  then have lt: "i < k" by simp
  with Suc.prems have "init_ok_at p qsize i" by simp
  then obtain f where f: "init (p ! i) = Some f" "f qsize = None"
    by (auto simp: init_ok_at_def split: option.splits)
  have ih: "init_loop g p qsize (i + 1) =
           (map (\<lambda>j. CallInit j qsize) [i + 1..<Suc k] @ fst (init_failed g p k err),
            snd (init_failed g p k err))"
    using Suc.hyps(2) Suc.prems lt by (intro Suc.hyps(1)) auto
  have "[i..<Suc k] = i # [i + 1..<Suc k]"
    using lt by (simp add: upt_conv_Cons del: upt_Suc)
  then show ?case
    using f lt Suc.prems(2) ih
    by (simp add: init_loop.simps [of g p qsize i] del: upt_Suc)
qed

text \<open>
  C2, where the code departs from it. When stage \<open>k\<close>'s \<^verbatim>\<open>init(queue_size)\<close> is the
  first to return an error, the driver has called \<^verbatim>\<open>init\<close> on the stages \<open>0..k\<close> and
  starts the rollback with \<^verbatim>\<open>fini\<close> of stage \<open>k\<close>, but the process does not exit with
  code 2 when that stage is loaded. If a \<^verbatim>\<open>fini\<close> of the rollback never returns
  (\<^verbatim>\<open>plugin_fini\<close> joins a worker that is still waiting in \<^verbatim>\<open>get\<close>), the driver hangs
  there. Otherwise every handle is closed and the last statement formats the error string
  of stage \<open>k\<close>, which lives in the module closed in the first rollback pass: the process
  is killed. Exit code 2 is reached only for a stage \<open>k\<close> whose handle is NULL.
\<close>

theorem init_failure_outcome:
  assumes "k < length p" and "\<forall>j<k. init_ok_at p qsize j" and "init_fails_at p qsize k err"
  shows "init_plugin g p qsize =
           (map (\<lambda>j. CallInit j qsize) [0..<Suc k] @ fst (init_failed g p k err),
            if \<not> snd (rollback_down p k) then Hangs
            else if handle (p ! k) = None then Exits 2 else Crashes)"
proof -
  have "init_loop g p qsize 0 =
           (map (\<lambda>j. CallInit j qsize) [0..<Suc k] @ fst (init_failed g p k err),
            snd (init_failed g p k err))"
    using assms by (intro init_loop_fails) auto
  then show ?thesis
    by (simp only: init_plugin_def init_failed_outcome)
qed

theorem init_failure_outcome_witness:
  "init_fails_at [logger_stage_rejected] 0 0 ''queue_size must be > 0''
   \<and> init_plugin (Some ''analyzer'') [logger_stage_rejected] 0 =
       ([CallInit 0 0,
         Stderr (''Initialize Plugins failed'' @ [newline]),
         Stderr (''plugin_init(logger) error: queue_size must be > 0'' @ [newline]),
         CallFini 0,
         Stderr (''plugin_fini(logger) error during rollback: plugin not initialized'' @ [newline]),
         Dlclose 0, FreeName 0],
        Crashes)
   \<and> init_ok_at [logger_stage_started, logger_stage_again] 10 0
   \<and> init_fails_at [logger_stage_started, logger_stage_again] 10 1 ''plugin already initialized''
   \<and> init_plugin (Some ''analyzer'') [logger_stage_started, logger_stage_again] 10 =
       ([CallInit 0 10, CallInit 1 10,
         Stderr (''Initialize Plugins failed'' @ [newline]),
         Stderr (''plugin_init(logger) error: plugin already initialized'' @ [newline]),
         CallFini 1],
        Hangs)
   \<and> init_ok_at [logger_stage_started, uppercaser_stage_starved] 10 0
   \<and> init_fails_at [logger_stage_started, uppercaser_stage_starved] 10 1 ''failed to allocate queue''
   \<and> init_plugin (Some ''analyzer'') [logger_stage_started, uppercaser_stage_starved] 10 =
       ([CallInit 0 10, CallInit 1 10,
         Stderr (''Initialize Plugins failed'' @ [newline]),
         Stderr (''plugin_init(uppercaser) error: failed to allocate queue'' @ [newline]),
         CallFini 1,
         Stderr (''plugin_fini(uppercaser) error during rollback: plugin not initialized''
                 @ [newline]),
         Dlclose 1, FreeName 1,
         CallFini 0],
        Hangs)"
proof -
  let ?p = "[logger_stage_rejected]"
  let ?q = "[logger_stage_started, logger_stage_again]"
  let ?r = "[logger_stage_started, uppercaser_stage_starved]"
  have a: "init_fails_at ?p 0 0 ''queue_size must be > 0''"
    by (simp add: init_fails_at_def logger_stage_rejected_def common_plugin_init_def
        global_plugin_context_def)
  have st: "initialized started_ctx \<and> consumer_thread started_ctx = 1
            \<and> queue started_ctx = Some (empty_queue 10)
            \<and> process_function started_ctx = Some logger_process"
    by (simp add: started_ctx_def common_plugin_init_def global_plugin_context_def
        ok_plugin_env_def consumer_producer_init_def ok_init_env_def empty_queue_def Let_def)
  have b: "init_ok_at ?q 10 0"
    by (simp add: init_ok_at_def logger_stage_started_def common_plugin_init_def
        global_plugin_context_def ok_plugin_env_def consumer_producer_init_def ok_init_env_def
        Let_def)
  have c: "init_fails_at ?q 10 1 ''plugin already initialized''"
    using st by (simp add: init_fails_at_def logger_stage_again_def common_plugin_init_def)
  have fr: "fst (plugin_fini (Returned 0) global_plugin_context)
              = Returned (Some ''plugin not initialized'')"
    by (simp add: plugin_fini_def global_plugin_context_def)
  have wj: "worker_join started_ctx [] = Blocked"
    using st by (simp add: worker_join_def plugin_consumer_thread_def Let_def)
  have fb: "fst (plugin_fini (worker_join started_ctx []) started_ctx) = Blocked"
    using st by (simp add: plugin_fini_def wj Let_def)
  have 1: "init_plugin (Some ''analyzer'') ?p 0 =
       ([CallInit 0 0,
         Stderr (''Initialize Plugins failed'' @ [newline]),
         Stderr (''plugin_init(logger) error: queue_size must be > 0'' @ [newline]),
         CallFini 0,
         Stderr (''plugin_fini(logger) error during rollback: plugin not initialized'' @ [newline]),
         Dlclose 0, FreeName 0],
        Crashes)"
    using init_failure_outcome [of 0 ?p 0 "''queue_size must be > 0''" "Some ''analyzer''"] a
    by (simp add: init_failed_def rollback_stage_def close_stage_def close_rest_def name_or_def
        logger_stage_rejected_def fr Let_def)
  have 2: "init_plugin (Some ''analyzer'') ?q 10 =
       ([CallInit 0 10, CallInit 1 10,
         Stderr (''Initialize Plugins failed'' @ [newline]),
         Stderr (''plugin_init(logger) error: plugin already initialized'' @ [newline]),
         CallFini 1],
        Hangs)"
    using init_failure_outcome [of 1 ?q 10 "''plugin already initialized''" "Some ''analyzer''"] b c
    by (simp add: init_failed_def rollback_stage_def close_stage_def close_rest_def name_or_def
        logger_stage_again_def fb Let_def)
  have d: "init_ok_at ?r 10 0"
    by (simp add: init_ok_at_def logger_stage_started_def common_plugin_init_def
        global_plugin_context_def ok_plugin_env_def consumer_producer_init_def ok_init_env_def
        Let_def)
  have e: "init_fails_at ?r 10 1 ''failed to allocate queue''"
    by (simp add: init_fails_at_def uppercaser_stage_starved_def common_plugin_init_def
        global_plugin_context_def ok_plugin_env_def)
  have 3: "init_plugin (Some ''analyzer'') ?r 10 =
       ([CallInit 0 10, CallInit 1 10,
         Stderr (''Initialize Plugins failed'' @ [newline]),
         Stderr (''plugin_init(uppercaser) error: failed to allocate queue'' @ [newline]),
         CallFini 1,
         Stderr (''plugin_fini(uppercaser) error during rollback: plugin not initialized''
                 @ [newline]),
         Dlclose 1, FreeName 1,
         CallFini 0],
        Hangs)"
    using init_failure_outcome [of 1 ?r 10 "''failed to allocate queue''" "Some ''analyzer''"] d e
    by (simp add: init_failed_def rollback_stage_def close_stage_def close_rest_def name_or_def
        uppercaser_stage_starved_def logger_stage_started_def fr fb Let_def)
  from a b c d e 1 2 3 show ?thesis by blast
qed

subsection \<open>Feeding long lines\<close>

lemma takeWhile_all: "x \<notin> set xs \<Longrightarrow> takeWhile (\<lambda>c. c \<noteq> x) xs = xs"
  by (induction xs) auto

lemma takeWhile_upto: "x \<notin> set xs \<Longrightarrow> takeWhile (\<lambda>c. c \<noteq> x) (xs @ x # ys) = xs"
  by (induction xs) auto

lemma fgets_short:
  assumes "newline \<notin> set line" "length line < n"
  shows "fgets (Suc n) (line @ newline # rest) = Some (line @ [newline], rest)"
proof -
  let ?inp = "line @ newline # rest"
  have w: "take (Suc n - 1) ?inp = line @ newline # take (n - Suc (length line)) rest"
    using assms(2) by (simp add: take_Cons')
  have l: "takeWhile (\<lambda>c. c \<noteq> newline) (take (Suc n - 1) ?inp) = line"
    unfolding w using assms(1) by (rule takeWhile_upto)
  have len: "length line < length (take (Suc n - 1) ?inp)"
    unfolding w by simp
  have t: "take (length line + 1) ?inp = line @ [newline]" by simp
  have d: "drop (length line + 1) ?inp = rest" by simp
  have ne: "?inp \<noteq> []" by simp
  show ?thesis
    unfolding fgets_def Let_def l t d using len ne by (simp only: if_True if_False)
qed

lemma fgets_long:
  assumes "newline \<notin> set line" "n \<le> length line" "0 < n"
  shows "fgets (Suc n) (line @ rest) = Some (take n line, drop n line @ rest)"
proof -
  let ?inp = "line @ rest"
  have w: "take (Suc n - 1) ?inp = take n line"
    using assms(2) by simp
  have "newline \<notin> set (take n line)"
    using assms(1) by (meson in_set_takeD)
  then have l: "takeWhile (\<lambda>c. c \<noteq> newline) (take n line) = take n line"
    by (rule takeWhile_all)
  have d: "drop (Suc n - 1) ?inp = drop n line @ rest"
    using assms(2) by simp
  have ne: "?inp \<noteq> []" using assms by auto
  show ?thesis
    unfolding fgets_def Let_def w l d using ne by (simp only: if_False less_irrefl)
qed

lemma read_line_short:
  assumes "newline \<notin> set line" "CHR 0x00 \<notin> set line" "length line < MAX_LINE_LEN"
  shows "read_line (line @ newline # rest) = Some (line, rest)"
proof -
  have f: "fgets (Suc MAX_LINE_LEN) (line @ newline # rest) = Some (line @ [newline], rest)"
    using fgets_short [OF assms(1) assms(3)] .
  have s: "takeWhile (\<lambda>c. c \<noteq> CHR 0x00) (line @ [newline]) = line @ [newline]"
    using assms(2) by (intro takeWhile_all) (simp add: newline_def)
  show ?thesis
    by (simp add: read_line_def f s Let_def nth_append)
qed

lemma read_line_full:
  assumes "newline \<notin> set line" "CHR 0x00 \<notin> set line" "length line = MAX_LINE_LEN"
  shows "read_line (line @ newline # rest) = Some (line, rest)"
proof -
  have "fgets (Suc MAX_LINE_LEN) (line @ newline # rest)
          = Some (take MAX_LINE_LEN line, drop MAX_LINE_LEN line @ newline # rest)"
    using assms by (intro fgets_long) (simp_all add: MAX_LINE_LEN_def)
  then have f: "fgets (Suc MAX_LINE_LEN) (line @ newline # rest) = Some (line, newline # rest)"
    using assms(3) by simp
  have s: "takeWhile (\<lambda>c. c \<noteq> CHR 0x00) line = line"
    using assms(2) by (rule takeWhile_all)
  have ne: "line \<noteq> []" using assms(3) by (auto simp: MAX_LINE_LEN_def)
  have "line ! (length line - 1) \<in> set line"
    using ne by simp
  with assms(1) have last: "line ! (length line - 1) \<noteq> newline" by metis
  show ?thesis
    using assms(3) last by (simp add: read_line_def f s Let_def)
qed

lemma read_line_long:
  assumes "newline \<notin> set line" "CHR 0x00 \<notin> set line" "MAX_LINE_LEN < length line"
  shows "read_line (line @ rest) = Some (take MAX_LINE_LEN line, drop MAX_LINE_LEN line @ rest)"
proof -
  let ?c = "take MAX_LINE_LEN line"
  have "fgets (Suc MAX_LINE_LEN) (line @ rest)
          = Some (?c, drop MAX_LINE_LEN line @ rest)"
    using assms by (intro fgets_long) (simp_all add: MAX_LINE_LEN_def)
  then have f: "fgets (Suc MAX_LINE_LEN) (line @ rest) = Some (?c, drop MAX_LINE_LEN line @ rest)"
    by simp
  have c0: "CHR 0x00 \<notin> set ?c" and cn: "newline \<notin> set ?c"
    using assms(1,2) by (meson in_set_takeD)+
  have s: "takeWhile (\<lambda>c. c \<noteq> CHR 0x00) ?c = ?c"
    using c0 by (rule takeWhile_all)
  have len: "length ?c = MAX_LINE_LEN" using assms(3) by simp
  then have ne: "?c \<noteq> []" by (auto simp: MAX_LINE_LEN_def)
  then have "?c ! (length ?c - 1) \<in> set ?c"
    by (metis diff_less length_greater_0_conv nth_mem zero_less_one)
  with cn have last: "?c ! (length ?c - 1) \<noteq> newline" by metis
  obtain x xs where d: "drop MAX_LINE_LEN line = x # xs"
    using assms(3) by (cases "drop MAX_LINE_LEN line") auto
  then have "x \<in> set line" by (metis in_set_dropD list.set_intros(1))
  with assms(1) have x: "x \<noteq> newline" by metis
  show ?thesis
    using len last x d
    by (simp add: read_line_def f s Let_def)
qed

lemma read_line_fill:
  assumes "length c = MAX_LINE_LEN" "newline \<notin> set c" "CHR 0x00 \<notin> set c" "r \<noteq> newline"
  shows "read_line (c @ r # rs) = Some (c, r # rs)"
proof -
  have "fgets (Suc MAX_LINE_LEN) (c @ r # rs)
          = Some (take MAX_LINE_LEN c, drop MAX_LINE_LEN c @ r # rs)"
    using assms by (intro fgets_long) (simp_all add: MAX_LINE_LEN_def)
  then have f: "fgets (Suc MAX_LINE_LEN) (c @ r # rs) = Some (c, r # rs)"
    using assms(1) by simp
  have s: "takeWhile (\<lambda>x. x \<noteq> CHR 0x00) c = c"
    using assms(3) by (rule takeWhile_all)
  have ne: "c \<noteq> []" using assms(1) by (auto simp: MAX_LINE_LEN_def)
  then have "c ! (length c - 1) \<in> set c" by simp
  with assms(2) have last: "c ! (length c - 1) \<noteq> newline" by metis
  show ?thesis
    using assms(1,4) last by (simp add: read_line_def f s Let_def)
qed

lemma read_line_nul_first:
  assumes "Suc (length y) = MAX_LINE_LEN" "newline \<notin> set y"
  shows "read_line (CHR 0x00 # y @ newline # rs) = Some ([], newline # rs)"
proof -
  have n: "newline \<notin> set (CHR 0x00 # y)"
    using assms(2) by (simp add: newline_def)
  have "fgets (Suc MAX_LINE_LEN) ((CHR 0x00 # y) @ newline # rs)
          = Some (take MAX_LINE_LEN (CHR 0x00 # y), drop MAX_LINE_LEN (CHR 0x00 # y) @ newline # rs)"
    using n assms(1) by (intro fgets_long) (simp_all add: MAX_LINE_LEN_def)
  then have f: "fgets (Suc MAX_LINE_LEN) (CHR 0x00 # y @ newline # rs)
          = Some (CHR 0x00 # y, newline # rs)"
    using assms(1) by simp
  have pos: "0 < MAX_LINE_LEN" by (simp add: MAX_LINE_LEN_def)
  show ?thesis
    using pos by (simp add: read_line_def f Let_def)
qed

lemma read_line_empty: "read_line [] = None"
  by (simp add: read_line_def fgets_def)

lemma chunks_short:
  assumes "0 < n" "xs \<noteq> []" "length xs \<le> n"
  shows "chunks n xs = [xs]"
  using assms by (simp add: chunks.simps [of n xs] chunks.simps [of n "[]"])

lemma chunks_long:
  assumes "0 < n" "n < length xs"
  shows "chunks n xs = take n xs # chunks n (drop n xs)"
  using assms by (subst chunks.simps) auto

lemma chunks_ne:
  assumes "0 < n" "xs \<noteq> []"
  shows "chunks n xs \<noteq> []"
  using assms by (subst chunks.simps) auto

lemma concat_chunks: "0 < n \<Longrightarrow> concat (chunks n xs) = xs"
proof (induction n xs rule: chunks.induct)
  case (1 n xs)
  show ?case
  proof (cases "xs = []")
    case True
    then show ?thesis by (simp add: chunks.simps [of n "[]"])
  next
    case False
    with 1 have "concat (chunks n (drop n xs)) = drop n xs" by simp
    then show ?thesis
      using False 1(2) by (subst chunks.simps) simp
  qed
qed

lemma chunks_bounds: "0 < n \<Longrightarrow> c \<in> set (chunks n xs) \<Longrightarrow> 0 < length c \<and> length c \<le> n"
proof (induction n xs rule: chunks.induct)
  case (1 n xs)
  show ?case
  proof (cases "xs = []")
    case True
    with 1(3) show ?thesis by (simp add: chunks.simps [of n "[]"])
  next
    case False
    from 1(3) have "c \<in> set (take n xs # chunks n (drop n xs))"
      using False 1(2) by (subst (asm) chunks.simps) simp
    then have "c = take n xs \<or> c \<in> set (chunks n (drop n xs))" by simp
    then show ?thesis
    proof (elim disjE)
      assume "c \<in> set (chunks n (drop n xs))"
      with 1 False show ?thesis by simp
    next
      assume "c = take n xs"
      then show ?thesis using False 1(2) by simp
    qed
  qed
qed

lemma chunks_many:
  assumes "0 < n" "n < length xs"
  shows "2 \<le> length (chunks n xs)"
proof -
  have "drop n xs \<noteq> []" using assms by simp
  then have "chunks n (drop n xs) \<noteq> []" using assms(1) by (intro chunks_ne)
  then have "1 \<le> length (chunks n (drop n xs))"
    by (cases "chunks n (drop n xs)") simp_all
  then show ?thesis by (simp add: chunks_long [OF assms])
qed

lemma feed_loop_line:
  assumes "newline \<notin> set line" "CHR 0x00 \<notin> set line" "line \<noteq> []"
    "\<forall>c\<in>set (chunks MAX_LINE_LEN line). place (Some c) = None"
  shows "feed_loop g place (line @ newline # rest) =
           (if last (chunks MAX_LINE_LEN line) = ''<END>''
            then (map CallPlaceWork (chunks MAX_LINE_LEN line), Returns)
            else (map CallPlaceWork (chunks MAX_LINE_LEN line) @ fst (feed_loop g place rest),
                  snd (feed_loop g place rest)))"
  using assms
proof (induction "length line" arbitrary: line rule: less_induct)
  case less
  have pos: "0 < MAX_LINE_LEN" by (simp add: MAX_LINE_LEN_def)
  show ?case
  proof (cases "length line \<le> MAX_LINE_LEN")
    case True
    have ch: "chunks MAX_LINE_LEN line = [line]"
      using pos less.prems(3) True by (rule chunks_short)
    have r: "read_line (line @ newline # rest) = Some (line, rest)"
    proof (cases "length line = MAX_LINE_LEN")
      case True
      then show ?thesis using less.prems by (intro read_line_full)
    next
      case False
      with True have "length line < MAX_LINE_LEN" by simp
      then show ?thesis using less.prems by (intro read_line_short)
    qed
    have p: "place (Some line) = None"
      using less.prems(4) by (simp add: ch)
    show ?thesis
    proof (cases "line = ''<END>''")
      case True
      with p have "place (Some ''<END>'') = None" by simp
      then have "feed_loop g place (line @ newline # rest) = ([CallPlaceWork line], Returns)"
        using True r by (subst feed_loop.simps) simp
      then show ?thesis
        unfolding ch by (simp add: True)
    next
      case False
      then have "feed_loop g place (line @ newline # rest) =
          (CallPlaceWork line # fst (feed_loop g place rest), snd (feed_loop g place rest))"
        using r p by (subst feed_loop.simps) (simp add: Let_def)
      then show ?thesis
        unfolding ch using False by simp
    qed
  next
    case False
    then have long: "MAX_LINE_LEN < length line" by simp
    let ?c = "take MAX_LINE_LEN line" and ?d = "drop MAX_LINE_LEN line"
    have ch: "chunks MAX_LINE_LEN line = ?c # chunks MAX_LINE_LEN ?d"
      using pos long by (rule chunks_long)
    have dne: "?d \<noteq> []" using long by simp
    then have cne: "chunks MAX_LINE_LEN ?d \<noteq> []" using pos by (intro chunks_ne)
    have r: "read_line (line @ newline # rest) = Some (?c, ?d @ newline # rest)"
      using less.prems(1,2) long by (rule read_line_long)
    have "length ?c = MAX_LINE_LEN" using long by simp
    then have "length ?c \<noteq> length ''<END>''" by (simp add: MAX_LINE_LEN_def)
    then have notend: "?c \<noteq> ''<END>''" by metis
    have p: "place (Some ?c) = None"
      using less.prems(4) by (simp add: ch)
    have ih: "feed_loop g place (?d @ newline # rest) =
           (if last (chunks MAX_LINE_LEN ?d) = ''<END>''
            then (map CallPlaceWork (chunks MAX_LINE_LEN ?d), Returns)
            else (map CallPlaceWork (chunks MAX_LINE_LEN ?d) @ fst (feed_loop g place rest),
                  snd (feed_loop g place rest)))"
    proof (rule less.hyps)
      show "length ?d < length line" using long pos by simp
      show "newline \<notin> set ?d" using less.prems(1) by (meson in_set_dropD)
      show "CHR 0x00 \<notin> set ?d" using less.prems(2) by (meson in_set_dropD)
      show "?d \<noteq> []" by (rule dne)
      show "\<forall>c\<in>set (chunks MAX_LINE_LEN ?d). place (Some c) = None"
        using less.prems(4) by (simp add: ch)
    qed
    have l: "last (chunks MAX_LINE_LEN line) = last (chunks MAX_LINE_LEN ?d)"
      using cne by (simp add: ch)
    have step: "feed_loop g place (line @ newline # rest) =
            (CallPlaceWork ?c # fst (feed_loop g place (?d @ newline # rest)),
             snd (feed_loop g place (?d @ newline # rest)))"
      using r p notend by (subst feed_loop.simps) (simp add: Let_def)
    show ?thesis
      unfolding step ih by (simp add: ch cne)
  qed
qed

text \<open>
  C8 (as amended). When a line of stdin that contains no NUL byte (and is ended by a
  newline) exceeds 1024 bytes and \<^verbatim>\<open>place_work\<close> accepts its pieces, \<^verbatim>\<open>feed_input\<close>
  submits it to the first stage as its consecutive pieces of 1024 bytes (the last one
  shorter or equal): at least two work items, none empty, none longer than 1024 bytes,
  together the line. The newline that follows the line is consumed without a work item
  of its own, also when the last piece fills the buffer exactly: the next work item comes
  from the bytes after that newline. (A last piece that reads \<open><END>\<close> is submitted as the
  terminator and ends the feed.)
\<close>

theorem feed_long_line:
  assumes "place_work first_plugin = Some place"
    and "MAX_LINE_LEN < length line"
    and "newline \<notin> set line" and "CHR 0x00 \<notin> set line"
    and "\<forall>c\<in>set (chunks MAX_LINE_LEN line). place (Some c) = None"
  shows "fst (feed_input g first_plugin (line @ newline # rest)) =
           map CallPlaceWork (chunks MAX_LINE_LEN line)
           @ (if last (chunks MAX_LINE_LEN line) = ''<END>'' then []
              else fst (feed_input g first_plugin rest))
         \<and> 2 \<le> length (chunks MAX_LINE_LEN line)
         \<and> (\<forall>c\<in>set (chunks MAX_LINE_LEN line). 0 < length c \<and> length c \<le> MAX_LINE_LEN)
         \<and> concat (chunks MAX_LINE_LEN line) = line"
proof -
  have pos: "0 < MAX_LINE_LEN" by (simp add: MAX_LINE_LEN_def)
  from assms(2) have ne: "line \<noteq> []" by auto
  have "fst (feed_loop g place (line @ newline # rest)) =
           map CallPlaceWork (chunks MAX_LINE_LEN line)
           @ (if last (chunks MAX_LINE_LEN line) = ''<END>'' then []
              else fst (feed_loop g place rest))"
    by (simp add: feed_loop_line [OF assms(3) assms(4) ne assms(5)])
  then have 1: "fst (feed_input g first_plugin (line @ newline # rest)) =
           map CallPlaceWork (chunks MAX_LINE_LEN line)
           @ (if last (chunks MAX_LINE_LEN line) = ''<END>'' then []
              else fst (feed_input g first_plugin rest))"
    by (simp add: feed_input_def assms(1))
  have 2: "2 \<le> length (chunks MAX_LINE_LEN line)"
    using pos assms(2) by (rule chunks_many)
  have 3: "\<forall>c\<in>set (chunks MAX_LINE_LEN line). 0 < length c \<and> length c \<le> MAX_LINE_LEN"
    using chunks_bounds [OF pos] by blast
  have 4: "concat (chunks MAX_LINE_LEN line) = line"
    using pos by (rule concat_chunks)
  from 1 2 3 4 show ?thesis by blast
qed

theorem feed_long_line_witness:
  "place_work good_stage = Some (\<lambda>s. None)
   \<and> MAX_LINE_LEN < length (replicate 2048 (CHR ''x''))
   \<and> newline \<notin> set (replicate 2048 (CHR ''x''))
   \<and> CHR 0x00 \<notin> set (replicate 2048 (CHR ''x''))
   \<and> fst (feed_input None good_stage (replicate 2048 (CHR ''x'') @ newline # ''<END>'' @ [newline])) =
           map CallPlaceWork (chunks MAX_LINE_LEN (replicate 2048 (CHR ''x'')))
           @ (if last (chunks MAX_LINE_LEN (replicate 2048 (CHR ''x''))) = ''<END>'' then []
              else fst (feed_input None good_stage (''<END>'' @ [newline])))
   \<and> 2 \<le> length (chunks MAX_LINE_LEN (replicate 2048 (CHR ''x'')))
   \<and> concat (chunks MAX_LINE_LEN (replicate 2048 (CHR ''x''))) = replicate 2048 (CHR ''x'')"
proof -
  let ?l = "replicate 2048 (CHR ''x'')"
  have a: "place_work good_stage = Some (\<lambda>s. None)" by (simp add: good_stage_def)
  have b: "MAX_LINE_LEN < length ?l" by (simp add: MAX_LINE_LEN_def)
  have c: "newline \<notin> set ?l" by (simp add: newline_def)
  have d: "CHR 0x00 \<notin> set ?l" by simp
  have e: "\<forall>c\<in>set (chunks MAX_LINE_LEN ?l). (\<lambda>s. None) (Some c) = (None :: string option)" by simp
  from feed_long_line [OF a b c d e, of None "''<END>'' @ [newline]"] a b c d
  show ?thesis by blast
qed

text \<open>
  With a NUL byte in the line the newline is not consumed: \<^verbatim>\<open>feed_input\<close> measures a
  chunk with \<^verbatim>\<open>strlen\<close>. The line of 1024 \<open>x\<close>, one NUL byte and 1023 \<open>y\<close> is read in two
  chunks that fill the buffer; the second one has length 0 for \<^verbatim>\<open>strlen\<close>, so the newline
  after it is read as a line of its own, and an extra empty work item is submitted.
\<close>

theorem feed_nul_chunk_counterexample:
  "fst (feed_input None good_stage
          (replicate 1024 (CHR ''x'') @ CHR 0x00 # replicate 1023 (CHR ''y'') @ [newline]))
     = [CallPlaceWork (replicate 1024 (CHR ''x'')), CallPlaceWork [], CallPlaceWork []]"
proof -
  let ?x = "replicate 1024 (CHR ''x'')" and ?y = "replicate 1023 (CHR ''y'')"
  let ?place = "\<lambda>s :: string option. None :: string option"
  have r1: "read_line (?x @ CHR 0x00 # ?y @ [newline]) = Some (?x, CHR 0x00 # ?y @ [newline])"
    by (rule read_line_fill) (simp_all add: MAX_LINE_LEN_def newline_def)
  have r2: "read_line (CHR 0x00 # ?y @ [newline]) = Some ([], [newline])"
    by (rule read_line_nul_first) (simp_all add: MAX_LINE_LEN_def newline_def)
  have r3: "read_line [newline] = Some ([], [])"
    using read_line_short [of "[]" "[]"] by (simp add: MAX_LINE_LEN_def)
  have x: "?x \<noteq> ''<END>''"
  proof
    assume "?x = ''<END>''"
    then have "length ?x = length ''<END>''" by (rule arg_cong)
    then show False by simp
  qed
  have 4: "feed_loop None ?place [] = ([], Returns)"
    by (subst feed_loop.simps) (simp add: read_line_empty)
  have 3: "feed_loop None ?place [newline] = ([CallPlaceWork []], Returns)"
    by (subst feed_loop.simps) (simp add: r3 4 Let_def)
  have 2: "feed_loop None ?place (CHR 0x00 # ?y @ [newline])
             = ([CallPlaceWork [], CallPlaceWork []], Returns)"
    by (subst feed_loop.simps) (simp add: r2 3 Let_def)
  have 1: "feed_loop None ?place (?x @ CHR 0x00 # ?y @ [newline])
             = ([CallPlaceWork ?x, CallPlaceWork [], CallPlaceWork []], Returns)"
    using x by (subst feed_loop.simps) (simp add: r1 2 Let_def)
  show ?thesis
    by (simp only: feed_input_def good_stage_def plugin_handle_t.simps option.case 1 fst_conv)
qed

subsection \<open>The queue size on the command line\<close>

lemma strtol_big: "strtol ''4294967297'' = (4294967297, [])"
  by (simp add: strtol_def isspace_def isdigit_def decimal_value_def LONG_MAX_def LONG_MIN_def Let_def)

lemma int_of_long_big: "int_of_long 4294967297 = 1"
  by (simp add: int_of_long_def)

lemma digit_not_space: "isdigit c \<Longrightarrow> \<not> isspace c"
  by (auto simp: isdigit_def isspace_def)

lemma digit_not_sign: "isdigit c \<Longrightarrow> c \<noteq> CHR ''-'' \<and> c \<noteq> CHR ''+''"
  by (auto simp: isdigit_def)

lemma takeWhile_digits: "\<forall>c\<in>set ds. isdigit c \<Longrightarrow> takeWhile isdigit ds = ds"
  by simp

lemma dropWhile_digits: "\<forall>c\<in>set ds. isdigit c \<Longrightarrow> dropWhile isdigit ds = []"
  by simp

lemma strtol_digits:
  assumes "ds \<noteq> []" "\<forall>c\<in>set ds. isdigit c" "decimal_value ds \<le> LONG_MAX" "0 \<le> decimal_value ds"
  shows "strtol ds = (decimal_value ds, [])"
proof -
  obtain c cs where ds: "ds = c # cs" using assms(1) by (cases ds) auto
  with assms(2) have c: "isdigit c" by simp
  have s1: "dropWhile isspace ds = ds"
    using digit_not_space [OF c] by (simp add: ds)
  have neg: "(case ds of [] \<Rightarrow> False | c # x \<Rightarrow> c = CHR ''-'') = False"
    using digit_not_sign [OF c] by (simp add: ds)
  have s2: "(case ds of [] \<Rightarrow> [] | c # cs \<Rightarrow> if c = CHR ''-'' \<or> c = CHR ''+'' then cs else ds) = ds"
    using digit_not_sign [OF c] by (simp add: ds)
  have tw: "takeWhile isdigit ds = ds"
    using assms(2) by (rule takeWhile_digits)
  have dw: "dropWhile isdigit ds = []"
    using assms(2) by (rule dropWhile_digits)
  have lo: "LONG_MIN \<le> decimal_value ds"
    using assms(4) by (simp add: LONG_MIN_def)
  have cl: "max LONG_MIN (min LONG_MAX (decimal_value ds)) = decimal_value ds"
    using lo assms(3) by simp
  show ?thesis
    unfolding strtol_def s1 Let_def neg s2 tw dw using assms(1) cl by simp
qed

lemma int_of_long_id:
  assumes "- (2 ^ 31) \<le> v" "v < 2 ^ 31"
  shows "int_of_long v = v"
  unfolding int_of_long_def using assms
  by (simp add: sint_sbintrunc' signed_take_bit_int_eq_self)

lemma queue_size_in_range:
  assumes "ds \<noteq> []" "\<forall>c\<in>set ds. isdigit c" "1 \<le> decimal_value ds" "decimal_value ds < 2 ^ 31"
  shows "parse_command_line True True (prog # ds # nm # names)
           = Inr (\<lparr>queue_size = decimal_value ds,
                    selected_plugin_count = int (length names) + 1\<rparr>, nm # names)"
proof -
  have "decimal_value ds \<le> LONG_MAX" using assms(4) by (simp add: LONG_MAX_def)
  then have s: "strtol ds = (decimal_value ds, [])"
    using assms by (intro strtol_digits) auto
  have i: "int_of_long (decimal_value ds) = decimal_value ds"
    using assms by (intro int_of_long_id) auto
  show ?thesis
    using assms(3) by (simp add: parse_command_line_def s i Let_def)
qed

text \<open>
  C6, where the code departs from it. The argument \<open>4294967297\<close> is a fully parsed decimal
  integer \<open>\<ge> 1\<close> and is accepted, but the conversion to \<^verbatim>\<open>int\<close> keeps 1: every stage is
  initialised with \<open>queue_size = 1\<close> and its queue has capacity 1, not 4294967297. The
  argument \<open>4294967296\<close> is accepted in the same way and becomes 0, which the stage's
  \<^verbatim>\<open>plugin_init\<close> then rejects. (For values below \<open>2^31\<close> the code does what C6 says:
  \<open>queue_size_in_range\<close>.)
\<close>

theorem queue_size_truncated:
  "parse_command_line True True [''analyzer'', ''4294967297'', ''logger'']
     = Inr (\<lparr>queue_size = 1, selected_plugin_count = 1\<rparr>, [''logger''])
   \<and> decimal_value ''4294967297'' = 4294967297
   \<and> map_option capacity
        (queue (snd (common_plugin_init ok_plugin_env global_plugin_context
                       (Some (\<lambda>s. snd (logger_plugin_transform True s))) (Some ''logger'') 1)))
       = Some 1
   \<and> parse_command_line True True [''analyzer'', ''4294967296'', ''logger'']
     = Inr (\<lparr>queue_size = 0, selected_plugin_count = 1\<rparr>, [''logger''])
   \<and> fst (common_plugin_init ok_plugin_env global_plugin_context
             (Some (\<lambda>s. snd (logger_plugin_transform True s))) (Some ''logger'') 0)
       = Some ''queue_size must be > 0''"
proof -
  have s: "strtol ''4294967296'' = (4294967296, [])"
    by (simp add: strtol_def isspace_def isdigit_def decimal_value_def LONG_MAX_def
        LONG_MIN_def Let_def)
  have i: "int_of_long 4294967296 = 0"
    by (simp add: int_of_long_def)
  show ?thesis
    by (simp add: parse_command_line_def strtol_big int_of_long_big s i decimal_value_def
        common_plugin_init_def ok_plugin_env_def consumer_producer_init_def ok_init_env_def
        global_plugin_context_def Let_def)
qed

theorem queue_size_truncated_witness:
  "parse_command_line True True [''analyzer'', ''4294967297'', ''logger'']
     \<noteq> Inr (\<lparr>queue_size = 4294967297, selected_plugin_count = 1\<rparr>, [''logger''])"
  using queue_size_truncated by simp

end
